theory Spec2Isabelle
  imports Complex_Main "HOL-Library.Log_Nat"
begin

section \<open>Timestamps and the scheduling constants\<close>

text \<open>
  The program keeps time as Python floats: seconds since the epoch, read with \<^verbatim>\<open>time()\<close>
  and stored in an SQLite \<^verbatim>\<open>REAL\<close> column. Every finite float is a binary fraction, so a
  timestamp is a rational number here. Arithmetic on timestamps is exact in the scheduler
  and the tracker below; the rounding of IEEE-754 binary64 is written out separately
  (\<open>round_double\<close>) for the one function whose range at the boundary depends on it.
\<close>

type_synonym timestamp = rat

definition UPDATE_INTERVAL :: rat where
  "UPDATE_INTERVAL = 7 * 24 * 3600"

definition UPDATE_INTERVAL_MIN_DRIFT :: rat where
  "UPDATE_INTERVAL_MIN_DRIFT = 10"

definition UPDATE_INTERVAL_MAX_DRIFT :: rat where
  "UPDATE_INTERVAL_MAX_DRIFT = 60"

definition SESSION_REFRESH_INTERVAL :: rat where
  "SESSION_REFRESH_INTERVAL = 1 * 3600"

definition SESSION_REFRESH_INTERVAL_MIN_DRIFT :: rat where
  "SESSION_REFRESH_INTERVAL_MIN_DRIFT = 10"

definition SESSION_REFRESH_INTERVAL_MAX_DRIFT :: rat where
  "SESSION_REFRESH_INTERVAL_MAX_DRIFT = 60"

datatype ScheduledEvent = REFRESH | UPDATE

record ScheduleEntry =
  ev_when :: timestamp
  ev_what :: ScheduledEvent

section \<open>random_interval\<close>

text \<open>
  \<^verbatim>\<open>return base + min_drift + random() * (max_drift - min_drift)\<close>.
  The draw \<open>u\<close> is the value \<^verbatim>\<open>random()\<close> returned: a multiple of \<open>2^-53\<close> in \<open>[0, 1)\<close>.
  \<open>random_interval\<close> is the expression in exact arithmetic.
\<close>

definition random_interval :: "rat \<Rightarrow> rat \<Rightarrow> rat \<Rightarrow> rat \<Rightarrow> rat" where
  "random_interval base min_drift max_drift u = base + min_drift + u * (max_drift - min_drift)"

definition is_draw :: "rat \<Rightarrow> bool" where
  "is_draw u = (0 \<le> u \<and> u < 1 \<and> of_int \<lfloor>u * 2 ^ 53\<rfloor> = u * 2 ^ 53)"

subsection \<open>The same expression in binary64\<close>

text \<open>
  Python's float is IEEE-754 binary64 and every float operation rounds to nearest, ties
  to even. \<open>round_double x\<close> is the double nearest to the rational \<open>x\<close>: the binade of \<open>x\<close>
  (\<open>2^e \<le> |x| < 2^(e+1)\<close>, at least \<open>-1022\<close> so that subnormals keep the spacing \<open>2^-1074\<close>)
  fixes the spacing \<open>2^(e-52)\<close>, and \<open>x\<close> is rounded to a multiple of it. Overflow to infinity
  (\<open>|x| \<ge> 2^1024\<close>) is outside the model. In \<open>random_interval_double\<close> the three
  parameters are Python ints, as the module's constants are: \<open>base + min_drift\<close> and
  \<open>max_drift - min_drift\<close> are exact int operations, each int is converted to a float
  where it meets one, and the product and the sum are float operations.
\<close>

definition round_even :: "rat \<Rightarrow> int" where
  "round_even x =
     (let f = \<lfloor>x\<rfloor>; d = x - of_int f
      in if d < 1 / 2 then f else if 1 / 2 < d then f + 1 else if even f then f else f + 1)"

definition pow2 :: "int \<Rightarrow> rat" where
  "pow2 e = (if 0 \<le> e then 2 ^ nat e else 1 / 2 ^ nat (- e))"

definition binade :: "rat \<Rightarrow> int" where
  "binade x =
     (case quotient_of \<bar>x\<bar> of (p, q) \<Rightarrow>
        let d = bitlen p - bitlen q in if pow2 d \<le> \<bar>x\<bar> then d else d - 1)"

definition round_double :: "rat \<Rightarrow> rat" where
  "round_double x =
     (if x = 0 then 0
      else let u = pow2 (max (binade x) (- 1022) - 52) in of_int (round_even (x / u)) * u)"

definition random_interval_double :: "int \<Rightarrow> int \<Rightarrow> int \<Rightarrow> rat \<Rightarrow> rat" where
  "random_interval_double base min_drift max_drift u =
     round_double (round_double (of_int (base + min_drift))
                   + round_double (u * round_double (of_int (max_drift - min_drift))))"

section \<open>Scheduler: event streams and their merge\<close>

text \<open>
  \<^verbatim>\<open>Scheduler._event_stream\<close> is a generator that never ends. Its state is the variable
  \<open>t\<close>; \<open>event_time \<dots> n\<close> is the value of \<open>t\<close> at the generator's \<open>n\<close>-th yield (from 0), and
  \<open>event_stream \<dots> n\<close> is the entry yielded there. \<open>now\<close> is what \<^verbatim>\<open>time()\<close> returned when the
  generator body started, and \<open>us k\<close> is the draw of the generator's \<open>k\<close>-th call of
  \<open>random_interval\<close>.
\<close>

fun event_time :: "timestamp \<Rightarrow> rat \<Rightarrow> rat \<Rightarrow> rat \<Rightarrow> timestamp \<Rightarrow> (nat \<Rightarrow> rat) \<Rightarrow> nat \<Rightarrow> timestamp" where
  "event_time last_occured base min_drift max_drift now us 0 =
     max (last_occured + random_interval base min_drift max_drift (us 0)) now"
| "event_time last_occured base min_drift max_drift now us (Suc n) =
     event_time last_occured base min_drift max_drift now us n
       + random_interval base min_drift max_drift (us (Suc n))"

definition event_stream ::
  "ScheduledEvent \<Rightarrow> timestamp \<Rightarrow> rat \<Rightarrow> rat \<Rightarrow> rat \<Rightarrow> timestamp \<Rightarrow> (nat \<Rightarrow> rat) \<Rightarrow> nat \<Rightarrow> ScheduleEntry" where
  "event_stream token last_occured base min_drift max_drift now us n =
     \<lparr>ev_when = event_time last_occured base min_drift max_drift now us n, ev_what = token\<rparr>"

text \<open>
  \<^verbatim>\<open>heapq.merge(*iterables, key=...)\<close> of the standard library keeps one heap entry
  \<^verbatim>\<open>[key(value), order, value, next]\<close> per iterable, \<open>order\<close> being the iterable's position
  among the arguments. It yields the value of the least entry, which is the one with
  the least key and among those the least \<open>order\<close>, and replaces it by the next value of
  the same iterable. Here an endless iterable is a function from positions to values,
  \<open>ps ! i\<close> is the position of the pending value of iterable \<open>i\<close>, \<open>least_index\<close> picks the
  first index with the least key, and \<open>heapq_merge key n ss ps\<close> lists the next \<open>n\<close> values
  yielded, each with the index of the iterable it came from. With no iterable nothing
  is yielded.
\<close>

fun least_index :: "('k::linorder) list \<Rightarrow> nat" where
  "least_index [] = 0"
| "least_index [k] = 0"
| "least_index (k # ks) = (let j = least_index ks in if k \<le> ks ! j then 0 else Suc j)"

definition pending :: "('a \<Rightarrow> 'k) \<Rightarrow> (nat \<Rightarrow> 'a) list \<Rightarrow> nat list \<Rightarrow> 'k list" where
  "pending key ss ps = map (\<lambda>(s, p). key (s p)) (zip ss ps)"

fun heapq_merge :: "('a \<Rightarrow> 'k::linorder) \<Rightarrow> nat \<Rightarrow> (nat \<Rightarrow> 'a) list \<Rightarrow> nat list \<Rightarrow> (nat \<times> 'a) list" where
  "heapq_merge key 0 ss ps = []"
| "heapq_merge key (Suc n) ss ps =
     (if ss = [] then []
      else let i = least_index (pending key ss ps)
           in (i, (ss ! i) (ps ! i)) # heapq_merge key n ss (ps[i := Suc (ps ! i)]))"

text \<open>
  \<^verbatim>\<open>Scheduler._iter_events\<close>: the REFRESH stream first, the UPDATE stream second, merged by
  \<open>when\<close>. \<open>now1\<close>, \<open>now2\<close> are the clock readings of the two generators and \<open>us1\<close>, \<open>us2\<close> their draws.
  \<open>iter_events \<dots> n\<close> is the list of the first \<open>n\<close> entries the Scheduler yields.
\<close>

definition iter_events ::
  "timestamp \<Rightarrow> timestamp \<Rightarrow> timestamp \<Rightarrow> timestamp \<Rightarrow> (nat \<Rightarrow> rat) \<Rightarrow> (nat \<Rightarrow> rat) \<Rightarrow> nat \<Rightarrow> ScheduleEntry list" where
  "iter_events last_login last_update now1 now2 us1 us2 n =
     map snd (heapq_merge ev_when n
       [event_stream REFRESH last_login SESSION_REFRESH_INTERVAL
          SESSION_REFRESH_INTERVAL_MIN_DRIFT SESSION_REFRESH_INTERVAL_MAX_DRIFT now1 us1,
        event_stream UPDATE last_update UPDATE_INTERVAL
          UPDATE_INTERVAL_MIN_DRIFT UPDATE_INTERVAL_MAX_DRIFT now2 us2]
       [0, 0])"

section \<open>UpdateTracker\<close>

text \<open>
  The table \<^verbatim>\<open>update_ts (name TEXT PRIMARY KEY, value REAL NOT NULL DEFAULT 0)\<close> is a
  partial map from names to values. A database file either has the table or not yet
  (\<open>None\<close>); \<open>DB_INIT\<close> is \<^verbatim>\<open>CREATE TABLE IF NOT EXISTS\<close>. An \<open>UpdateTracker\<close> object is its
  connection, that is the table it reads and writes.
\<close>

type_synonym update_ts = "string \<rightharpoonup> timestamp"

type_synonym database = "update_ts option"

datatype exc = WebDriverException nat | TypeError | OtherException nat | KeyboardInterrupt

type_synonym 'a outcome = "exc + 'a"

definition DB_INIT :: "database \<Rightarrow> update_ts" where
  "DB_INIT db = (case db of None \<Rightarrow> Map.empty | Some t \<Rightarrow> t)"

definition insert_if_missing :: "string \<Rightarrow> update_ts \<Rightarrow> update_ts" where
  "insert_if_missing name t = (case t name of None \<Rightarrow> t(name \<mapsto> 0) | Some v \<Rightarrow> t)"

definition UpdateTracker_init :: "database \<Rightarrow> update_ts" where
  "UpdateTracker_init db = insert_if_missing ''login'' (insert_if_missing ''last'' (DB_INIT db))"

text \<open>\<^verbatim>\<open>cur.fetchone()[0]\<close> raises TypeError when no row matches.\<close>

definition UpdateTracker_last_update :: "update_ts \<Rightarrow> timestamp outcome" where
  "UpdateTracker_last_update t = (case t ''last'' of None \<Rightarrow> Inl TypeError | Some v \<Rightarrow> Inr v)"

definition UpdateTracker_last_login :: "update_ts \<Rightarrow> timestamp outcome" where
  "UpdateTracker_last_login t = (case t ''login'' of None \<Rightarrow> Inl TypeError | Some v \<Rightarrow> Inr v)"

text \<open>\<^verbatim>\<open>UPDATE update_ts SET value = ? WHERE name = ? AND value < ?\<close> with \<open>(ts, name, ts)\<close>.\<close>

definition UpdateTracker_update :: "timestamp \<Rightarrow> update_ts \<Rightarrow> update_ts" where
  "UpdateTracker_update ts t =
     (case t ''last'' of None \<Rightarrow> t | Some v \<Rightarrow> if v < ts then t(''last'' \<mapsto> ts) else t)"

definition UpdateTracker_login :: "timestamp \<Rightarrow> update_ts \<Rightarrow> update_ts" where
  "UpdateTracker_login ts t =
     (case t ''login'' of None \<Rightarrow> t | Some v \<Rightarrow> if v < ts then t(''login'' \<mapsto> ts) else t)"

text \<open>
  The program pairs each event kind with one key of the table: \<^verbatim>\<open>update_loop\<close> writes
  \<^verbatim>\<open>tracker.login\<close> after a REFRESH and \<^verbatim>\<open>tracker.update\<close> after an UPDATE, and the Scheduler
  builds the REFRESH stream from \<^verbatim>\<open>last_login\<close> and the UPDATE stream from \<^verbatim>\<open>last_update\<close>.
\<close>

fun tracker_record :: "ScheduledEvent \<Rightarrow> timestamp \<Rightarrow> update_ts \<Rightarrow> update_ts" where
  "tracker_record REFRESH ts t = UpdateTracker_login ts t"
| "tracker_record UPDATE ts t = UpdateTracker_update ts t"

fun tracker_last :: "ScheduledEvent \<Rightarrow> update_ts \<Rightarrow> timestamp outcome" where
  "tracker_last REFRESH t = UpdateTracker_last_login t"
| "tracker_last UPDATE t = UpdateTracker_last_update t"

fun record_all :: "(ScheduledEvent \<times> timestamp) list \<Rightarrow> update_ts \<Rightarrow> update_ts" where
  "record_all [] t = t"
| "record_all ((k, ts) # ops) t = record_all ops (tracker_record k ts t)"

section \<open>The environment: clock, signals and browser sessions\<close>

text \<open>
  What the program does not decide is given by an environment. A browser session answers
  each call with a value or an exception; \<open>refresh\<close> and \<open>update\<close> are the outcomes of the
  action executors \<^verbatim>\<open>refresh(browser, timeout)\<close> and \<^verbatim>\<open>update(browser, timeout)\<close> run on it.
  \<open>clock env n\<close> is what the \<open>n\<close>-th call of \<^verbatim>\<open>time()\<close> returns, \<open>sigterm env n\<close> says whether the
  signal handler raises KeyboardInterrupt during the \<open>n\<close>-th \<^verbatim>\<open>sleep\<close>, \<open>new_session env n\<close> is
  what the \<open>n\<close>-th call of \<^verbatim>\<open>browser_factory.new()\<close> does, \<open>localtime env n\<close> is the local
  time read while session \<open>n\<close> is guarded, \<open>random env k n\<close> is the \<open>n\<close>-th draw of the event
  stream of kind \<open>k\<close>, and \<open>commit env n\<close> is what the database does with the \<open>n\<close>-th write of
  the tracker: it commits, or \<^verbatim>\<open>execute\<close> raises (an \<^verbatim>\<open>sqlite3.Error\<close>, say) and the
  transaction is rolled back. The state of a run is the tracker's table, the
  numbers of calls made so far, and the trace of the calls in order.
\<close>

record browser =
  current_url :: "string outcome"
  get_cookies :: "string outcome"
  save_screenshot :: "unit outcome"
  quit :: "unit outcome"
  refresh :: "unit outcome"
  update :: "unit outcome"

record struct_time =
  tm_year :: nat
  tm_mon :: nat
  tm_mday :: nat
  tm_hour :: nat
  tm_min :: nat
  tm_sec :: nat

record env =
  clock :: "nat \<Rightarrow> timestamp"
  sigterm :: "nat \<Rightarrow> bool"
  new_session :: "nat \<Rightarrow> browser outcome"
  screenshot_dir :: string
  localtime :: "nat \<Rightarrow> struct_time"
  random :: "ScheduledEvent \<Rightarrow> nat \<Rightarrow> rat"
  commit :: "nat \<Rightarrow> unit outcome"

datatype effect =
    Time timestamp
  | Sleep rat
  | New nat
  | Refresh nat
  | Update nat
  | CurrentUrl nat
  | GetCookies nat
  | SaveScreenshot nat string
  | Quit nat
  | TrackerLogin timestamp
  | TrackerUpdate timestamp
  | LogFailure ScheduledEvent exc

record world =
  tracker :: update_ts
  ticks :: nat
  sleeps :: nat
  sessions :: nat
  writes :: nat
  trace :: "effect list"

definition time :: "env \<Rightarrow> world \<Rightarrow> timestamp \<times> world" where
  "time e w =
     (clock e (ticks w), w\<lparr>ticks := Suc (ticks w), trace := trace w @ [Time (clock e (ticks w))]\<rparr>)"

definition sleep :: "env \<Rightarrow> rat \<Rightarrow> world \<Rightarrow> unit outcome \<times> world" where
  "sleep e secs w =
     (if sigterm e (sleeps w) then Inl KeyboardInterrupt else Inr (),
      w\<lparr>sleeps := Suc (sleeps w), trace := trace w @ [Sleep secs]\<rparr>)"

section \<open>wall_clock_wait\<close>

text \<open>
  \<^verbatim>\<open>while time() < when: sleep(precision)\<close>. The loop runs as long as the clock stays below
  \<open>when\<close>, so the function is partial: \<open>None\<close> is a wait that never ends. A KeyboardInterrupt
  raised during a sleep leaves the loop at once.
\<close>

partial_function (option) wall_clock_wait ::
  "env \<Rightarrow> timestamp \<Rightarrow> rat \<Rightarrow> world \<Rightarrow> (unit outcome \<times> world) option" where
  "wall_clock_wait e when precision w =
     (case time e w of (now, w1) \<Rightarrow>
        if now < when
        then (case sleep e precision w1 of
                (Inl x, w2) \<Rightarrow> Some (Inl x, w2)
              | (Inr u, w2) \<Rightarrow> wall_clock_wait e when precision w2)
        else Some (Inr (), w1))"

declare wall_clock_wait.simps [code]

text \<open>
  The trace of a wait that sleeps \<open>k\<close> times: \<open>k + 1\<close> clock readings, from reading number \<open>t\<close>
  on, with one sleep of \<open>p\<close> seconds between consecutive readings. \<open>waited e when p w y\<close>
  says that \<open>y\<close> is the result of such a wait started in \<open>w\<close>: the first \<open>k\<close> readings were
  below \<open>when\<close> and their sleeps undisturbed, and then either reading \<open>k\<close> was at least \<open>when\<close>
  and the wait returned, or it was below and the sleep after it was interrupted.
\<close>

fun poll_trace :: "env \<Rightarrow> rat \<Rightarrow> nat \<Rightarrow> nat \<Rightarrow> effect list" where
  "poll_trace e p t 0 = [Time (clock e t)]"
| "poll_trace e p t (Suc k) = Time (clock e t) # Sleep p # poll_trace e p (Suc t) k"

definition waited :: "env \<Rightarrow> timestamp \<Rightarrow> rat \<Rightarrow> world \<Rightarrow> unit outcome \<times> world \<Rightarrow> bool" where
  "waited e when p w y =
     (\<exists>k. (\<forall>i<k. clock e (ticks w + i) < when \<and> \<not> sigterm e (sleeps w + i)) \<and>
        ((when \<le> clock e (ticks w + k) \<and>
          y = (Inr (), w\<lparr>ticks := ticks w + Suc k, sleeps := sleeps w + k,
                     trace := trace w @ poll_trace e p (ticks w) k\<rparr>)) \<or>
         (clock e (ticks w + k) < when \<and> sigterm e (sleeps w + k) \<and>
          y = (Inl KeyboardInterrupt, w\<lparr>ticks := ticks w + Suc k, sleeps := sleeps w + Suc k,
                     trace := trace w @ poll_trace e p (ticks w) k @ [Sleep p]\<rparr>))))"

section \<open>managed_browser\<close>

text \<open>
  \<^verbatim>\<open>strftime("err-%Y-%m-%d-%H-%M-%S.png", localtime())\<close> for a four-digit year, and
  \<^verbatim>\<open>os.path.join\<close> of two components on a POSIX system.
\<close>

definition digit :: "nat \<Rightarrow> char" where
  "digit d = ''0123456789'' ! (d mod 10)"

definition pad2 :: "nat \<Rightarrow> string" where
  "pad2 n = [digit (n div 10), digit n]"

definition pad4 :: "nat \<Rightarrow> string" where
  "pad4 n = [digit (n div 1000), digit (n div 100), digit (n div 10), digit n]"

definition strftime_err :: "struct_time \<Rightarrow> string" where
  "strftime_err tm =
     ''err-'' @ pad4 (tm_year tm) @ ''-'' @ pad2 (tm_mon tm) @ ''-'' @ pad2 (tm_mday tm) @ ''-''
       @ pad2 (tm_hour tm) @ ''-'' @ pad2 (tm_min tm) @ ''-'' @ pad2 (tm_sec tm) @ ''.png''"

definition path_join :: "string \<Rightarrow> string \<Rightarrow> string" where
  "path_join a b =
     (if b \<noteq> [] \<and> hd b = CHR ''/'' then b
      else if a = [] \<or> last a = CHR ''/'' then a @ b
      else a @ ''/'' @ b)"

fun is_WebDriverException :: "exc \<Rightarrow> bool" where
  "is_WebDriverException (WebDriverException n) = True"
| "is_WebDriverException x = False"

fun is_Exception :: "exc \<Rightarrow> bool" where
  "is_Exception KeyboardInterrupt = False"
| "is_Exception x = True"

text \<open>
  The \<^verbatim>\<open>except WebDriverException\<close> clause: each call on the browser may itself raise, and
  then that exception leaves the clause instead of the \<^verbatim>\<open>raise\<close> at its end. A trace lists
  the calls made, also the one that raised.
\<close>

definition except_WebDriverException ::
  "env \<Rightarrow> nat \<Rightarrow> browser \<Rightarrow> exc \<Rightarrow> effect list \<times> unit outcome" where
  "except_WebDriverException e s b x =
     (case current_url b of
        Inl x' \<Rightarrow> ([CurrentUrl s], Inl x')
      | Inr url \<Rightarrow>
          (case get_cookies b of
             Inl x' \<Rightarrow> ([CurrentUrl s, GetCookies s], Inl x')
           | Inr cookies \<Rightarrow>
               (let ss_filename = strftime_err (localtime e s);
                    ss_path = path_join (screenshot_dir e) ss_filename
                in case save_screenshot b of
                     Inl x' \<Rightarrow> ([CurrentUrl s, GetCookies s, SaveScreenshot s ss_path], Inl x')
                   | Inr u \<Rightarrow> ([CurrentUrl s, GetCookies s, SaveScreenshot s ss_path], Inl x))))"

text \<open>The \<^verbatim>\<open>else\<close> clause, run when the body returned.\<close>

definition else_clause :: "nat \<Rightarrow> browser \<Rightarrow> effect list \<times> unit outcome" where
  "else_clause s b =
     (case current_url b of
        Inl x' \<Rightarrow> ([CurrentUrl s], Inl x')
      | Inr url \<Rightarrow>
          (case get_cookies b of
             Inl x' \<Rightarrow> ([CurrentUrl s, GetCookies s], Inl x')
           | Inr cookies \<Rightarrow> ([CurrentUrl s, GetCookies s], Inr ())))"

text \<open>
  The \<^verbatim>\<open>finally\<close> clause: \<^verbatim>\<open>browser.quit()\<close>. When it raises, its exception replaces the
  pending outcome.
\<close>

definition finally_clause :: "nat \<Rightarrow> browser \<Rightarrow> unit outcome \<Rightarrow> effect list \<times> unit outcome" where
  "finally_clause s b r = ([Quit s], case quit b of Inl x' \<Rightarrow> Inl x' | Inr u \<Rightarrow> r)"

text \<open>
  \<^verbatim>\<open>with managed_browser(browser_factory) as browser: body\<close>. The body gets the session's
  number and the session, and gives the calls it made and its outcome.
\<close>

definition managed_browser ::
  "env \<Rightarrow> (nat \<Rightarrow> browser \<Rightarrow> effect list \<times> unit outcome) \<Rightarrow> world \<Rightarrow> unit outcome \<times> world" where
  "managed_browser e body w =
     (let s = sessions w; w0 = w\<lparr>sessions := Suc s, trace := trace w @ [New s]\<rparr>
      in case new_session e s of
           Inl x \<Rightarrow> (Inl x, w0)
         | Inr b \<Rightarrow>
             (case body s b of (fx, r) \<Rightarrow>
               (case (case r of
                        Inl x \<Rightarrow> if is_WebDriverException x
                                 then except_WebDriverException e s b x else ([], Inl x)
                      | Inr u \<Rightarrow> else_clause s b) of (hx, r1) \<Rightarrow>
                 (case finally_clause s b r1 of (qx, r2) \<Rightarrow>
                   (r2, w0\<lparr>trace := trace w0 @ fx @ hx @ qx\<rparr>)))))"

section \<open>update_loop\<close>

text \<open>
  The two \<^verbatim>\<open>with\<close> bodies of the loop. The UPDATE body wraps the executor in a
  \<^verbatim>\<open>try\<close> whose only clause re-raises a WebDriverException.
\<close>

definition refresh_body :: "nat \<Rightarrow> browser \<Rightarrow> effect list \<times> unit outcome" where
  "refresh_body s b = ([Refresh s], refresh b)"

definition update_body :: "nat \<Rightarrow> browser \<Rightarrow> effect list \<times> unit outcome" where
  "update_body s b =
     ([Update s],
      case update b of
        Inl x \<Rightarrow> if is_WebDriverException x then Inl x else Inl x
      | Inr u \<Rightarrow> Inr u)"

text \<open>
  \<^verbatim>\<open>with c: c.execute(...)\<close> of \<^verbatim>\<open>UpdateTracker.login\<close> and \<^verbatim>\<open>UpdateTracker.update\<close> as the loop
  calls them: \<open>stmt\<close> is the statement's effect on the table and \<open>call\<close> the call made. When
  \<^verbatim>\<open>execute\<close> raises, the connection's context manager rolls back and the table is as before.
\<close>

definition db_execute ::
  "env \<Rightarrow> (update_ts \<Rightarrow> update_ts) \<Rightarrow> effect \<Rightarrow> world \<Rightarrow> unit outcome \<times> world" where
  "db_execute e stmt call w =
     (let w1 = w\<lparr>writes := Suc (writes w), trace := trace w @ [call]\<rparr>
      in case commit e (writes w) of
           Inl x \<Rightarrow> (Inl x, w1)
         | Inr u \<Rightarrow> (Inr (), w1\<lparr>tracker := stmt (tracker w1)\<rparr>))"

text \<open>The statements inside the loop's \<^verbatim>\<open>try\<close>: the guarded action, then the tracker write.\<close>

definition try_block :: "env \<Rightarrow> ScheduleEntry \<Rightarrow> world \<Rightarrow> unit outcome \<times> world" where
  "try_block e ev w =
     (case ev_what ev of
        REFRESH \<Rightarrow>
          (case managed_browser e refresh_body w of
             (Inl x, w1) \<Rightarrow> (Inl x, w1)
           | (Inr u, w1) \<Rightarrow>
               (case time e w1 of (now, w2) \<Rightarrow>
                  db_execute e (UpdateTracker_login now) (TrackerLogin now) w2))
      | UPDATE \<Rightarrow>
          (case managed_browser e update_body w of
             (Inl x, w1) \<Rightarrow> (Inl x, w1)
           | (Inr u, w1) \<Rightarrow>
               (case time e w1 of (now, w2) \<Rightarrow>
                  db_execute e (UpdateTracker_update now) (TrackerUpdate now) w2)))"

text \<open>
  One pass of the \<^verbatim>\<open>for\<close> body: the wait, the \<^verbatim>\<open>try\<close>, and its two handlers.
  \<^verbatim>\<open>except KeyboardInterrupt: raise\<close> comes first; \<^verbatim>\<open>except Exception\<close> logs and lets the
  loop go on. \<open>Inl\<close> is an exception leaving the loop, with the state it left behind.
\<close>

definition loop_body :: "env \<Rightarrow> ScheduleEntry \<Rightarrow> world \<Rightarrow> (unit outcome \<times> world) option" where
  "loop_body e ev w =
     (case wall_clock_wait e (ev_when ev) 1 w of
        None \<Rightarrow> None
      | Some (Inl x, w1) \<Rightarrow> Some (Inl x, w1)
      | Some (Inr u, w1) \<Rightarrow>
          (case try_block e ev w1 of
             (Inr u', w2) \<Rightarrow> Some (Inr (), w2)
           | (Inl x, w2) \<Rightarrow>
               if x = KeyboardInterrupt then Some (Inl x, w2)
               else if is_Exception x
               then Some (Inr (), w2\<lparr>trace := trace w2 @ [LogFailure (ev_what ev) x]\<rparr>)
               else Some (Inl x, w2)))"

text \<open>The \<^verbatim>\<open>for\<close> loop over the entries the Scheduler yields, here over a finite list of them.\<close>

fun for_events :: "env \<Rightarrow> ScheduleEntry list \<Rightarrow> world \<Rightarrow> (unit outcome \<times> world) option" where
  "for_events e [] w = Some (Inr (), w)"
| "for_events e (ev # evs) w =
     (case loop_body e ev w of
        None \<Rightarrow> None
      | Some (Inl x, w1) \<Rightarrow> Some (Inl x, w1)
      | Some (Inr u, w1) \<Rightarrow> for_events e evs w1)"

text \<open>
  \<^verbatim>\<open>update_loop\<close>, cut after \<open>n\<close> entries of the Scheduler. The two generators read the clock
  when the merge first asks them for a value, the REFRESH stream first.
\<close>

definition update_loop :: "env \<Rightarrow> nat \<Rightarrow> world \<Rightarrow> (unit outcome \<times> world) option" where
  "update_loop e n w =
     (case UpdateTracker_last_update (tracker w) of
        Inl x \<Rightarrow> Some (Inl x, w)
      | Inr last_update \<Rightarrow>
          (case UpdateTracker_last_login (tracker w) of
             Inl x \<Rightarrow> Some (Inl x, w)
           | Inr last_login \<Rightarrow>
               (case time e w of (now1, w1) \<Rightarrow>
                 (case time e w1 of (now2, w2) \<Rightarrow>
                    for_events e
                      (iter_events last_login last_update now1 now2
                         (random e REFRESH) (random e UPDATE) n) w2))))"

section \<open>Sample inputs\<close>

text \<open>
  Concrete environments on which the theorems below are evaluated: a session that answers
  every call, sessions that fail at one call, and a run that starts on an empty database
  with a clock that advances one second per reading.
\<close>

definition healthy_browser :: browser where
  "healthy_browser =
     \<lparr>current_url = Inr ''https://www.work.ua/ru/jobseeker/my/resumes/'', get_cookies = Inr ''[]'',
      save_screenshot = Inr (), quit = Inr (), refresh = Inr (), update = Inr ()\<rparr>"

definition sample_time :: struct_time where
  "sample_time = \<lparr>tm_year = 2024, tm_mon = 3, tm_mday = 9, tm_hour = 17, tm_min = 5, tm_sec = 42\<rparr>"

definition sample_env :: "browser \<Rightarrow> env" where
  "sample_env b =
     \<lparr>clock = (\<lambda>n. of_nat n), sigterm = (\<lambda>n. False), new_session = (\<lambda>n. Inr b),
      screenshot_dir = ''/data/screenshots'', localtime = (\<lambda>n. sample_time),
      random = (\<lambda>k n. 1 / 2), commit = (\<lambda>n. Inr ())\<rparr>"

definition sample_world :: world where
  "sample_world =
     \<lparr>tracker = UpdateTracker_init None, ticks = 0, sleeps = 0, sessions = 0, writes = 0,
      trace = []\<rparr>"

section \<open>Properties of the tracker\<close>

lemma insert_if_missing_apply:
  "insert_if_missing name t n = (if n = name \<and> t name = None then Some 0 else t n)"
  by (simp add: insert_if_missing_def split: option.splits)

lemma UpdateTracker_init_apply:
  "UpdateTracker_init db n =
     (if (n = ''last'' \<or> n = ''login'') \<and> DB_INIT db n = None then Some 0 else DB_INIT db n)"
  by (auto simp: UpdateTracker_init_def insert_if_missing_apply)

lemma tracker_record_last:
  "tracker_last k t = Inr v \<Longrightarrow> tracker_last k (tracker_record k ts t) = Inr (if v < ts then ts else v)"
  by (cases k)
     (auto simp: UpdateTracker_last_login_def UpdateTracker_last_update_def
        UpdateTracker_login_def UpdateTracker_update_def split: option.splits)

lemma tracker_record_other:
  "k' \<noteq> k \<Longrightarrow> tracker_last k (tracker_record k' ts t) = tracker_last k t"
  by (cases k; cases k')
     (auto simp: UpdateTracker_last_login_def UpdateTracker_last_update_def
        UpdateTracker_login_def UpdateTracker_update_def split: option.splits)

lemma record_all_monotone:
  "tracker_last k t = Inr v \<Longrightarrow> \<exists>v'. tracker_last k (record_all ops t) = Inr v' \<and> v \<le> v'"
proof (induction ops arbitrary: t v)
  case Nil
  then show ?case by simp
next
  case (Cons op ops)
  obtain k' ts where op: "op = (k', ts)" by (cases op)
  have "\<exists>u. tracker_last k (tracker_record k' ts t) = Inr u \<and> v \<le> u"
  proof (cases "k' = k")
    case True
    with Cons.prems show ?thesis by (simp add: tracker_record_last)
  next
    case False
    with Cons.prems show ?thesis by (simp add: tracker_record_other)
  qed
  then obtain u where u: "tracker_last k (tracker_record k' ts t) = Inr u" "v \<le> u" by blast
  from Cons.IH [OF u(1)] obtain v' where
    "tracker_last k (record_all ops (tracker_record k' ts t)) = Inr v'" "u \<le> v'" by blast
  with u(2) op show ?case by auto
qed

lemma record_all_dom: "dom (record_all ops t) = dom t"
proof (induction ops arbitrary: t)
  case Nil
  then show ?case by simp
next
  case (Cons op ops)
  obtain k ts where op: "op = (k, ts)" by (cases op)
  have "dom (tracker_record k ts t) = dom t"
    by (cases k) (auto simp: UpdateTracker_login_def UpdateTracker_update_def split: option.splits if_splits)
  with Cons.IH op show ?case by simp
qed

lemma UpdateTracker_init_fixed:
  "''last'' \<in> dom t \<Longrightarrow> ''login'' \<in> dom t \<Longrightarrow> UpdateTracker_init (Some t) = t"
  by (rule ext) (auto simp: UpdateTracker_init_apply DB_INIT_def)

text \<open>
  Claim C2, as it stands: for every kind \<open>k\<close> and \<open>t0 < t1 < t2\<close>, after \<open>record(k, t1)\<close> and
  \<open>record(k, t0)\<close> the value of \<open>last(k)\<close> is \<open>t1\<close>. It fails on a tracker that already holds a
  value above \<open>t1\<close>: with 10 stored, recording 5 and then 3 leaves 10, since the first write
  is itself refused by the guard \<^verbatim>\<open>value < ?\<close>.
\<close>

theorem tracker_record_counterexample:
  "tracker_last UPDATE
     (tracker_record UPDATE 3 (tracker_record UPDATE 5
        (UpdateTracker_init (Some [''last'' \<mapsto> 10, ''login'' \<mapsto> 10])))) \<noteq> Inr 5"
  by (simp add: UpdateTracker_last_update_def UpdateTracker_update_def UpdateTracker_init_apply DB_INIT_def)

text \<open>
  Claim C2, amended: on a tracker whose value for kind \<open>k\<close> is \<open>v\<close>, a record of \<open>ts\<close> commits
  \<open>ts\<close> if and only if \<open>v < ts\<close> and otherwise changes nothing. Hence, when \<open>v\<close> is below \<open>t1\<close>:
  after \<open>record(k, t1)\<close> and \<open>record(k, t0)\<close> with \<open>t0 < t1\<close> the value is \<open>t1\<close>, and after
  \<open>record(k, t1)\<close> and \<open>record(k, t2)\<close> with \<open>t1 < t2\<close> it is \<open>t2\<close>. Over any sequence of record
  operations, of either kind, the value of \<open>k\<close> never decreases.
\<close>

theorem tracker_record_monotonic:
  assumes "tracker_last k t = Inr v"
  shows "tracker_last k (tracker_record k ts t) = Inr (if v < ts then ts else v)
       \<and> (v < t1 \<and> t0 < t1 \<longrightarrow>
            tracker_last k (tracker_record k t0 (tracker_record k t1 t)) = Inr t1)
       \<and> (v < t1 \<and> t1 < t2 \<longrightarrow>
            tracker_last k (tracker_record k t2 (tracker_record k t1 t)) = Inr t2)
       \<and> (\<exists>v'. tracker_last k (record_all ops t) = Inr v' \<and> v \<le> v')"
proof -
  have one: "tracker_last k (tracker_record k t1 t) = Inr (if v < t1 then t1 else v)"
    using assms by (rule tracker_record_last)
  show ?thesis
    using assms one tracker_record_last [OF one, of t0] tracker_record_last [OF one, of t2]
      record_all_monotone [OF assms, of ops]
    by (auto simp: tracker_record_last)
qed

theorem tracker_record_monotonic_witness:
  "tracker_last UPDATE (UpdateTracker_init None) = Inr 0
   \<and> tracker_last UPDATE (tracker_record UPDATE 3 (tracker_record UPDATE 5 (UpdateTracker_init None))) = Inr 5
   \<and> tracker_last UPDATE (tracker_record UPDATE 7 (tracker_record UPDATE 5 (UpdateTracker_init None))) = Inr 7"
proof -
  have h: "tracker_last UPDATE (UpdateTracker_init None) = Inr 0"
    by (simp add: UpdateTracker_last_update_def UpdateTracker_init_apply DB_INIT_def)
  show ?thesis
    using h tracker_record_monotonic [OF h, of 5 5 3 7 "[]"] by simp
qed

text \<open>
  Claim C9: opening the tracker makes both keys present; a key that was absent reads 0
  afterwards (so \<open>last\<close> is 0 when nothing was ever recorded), a value already stored is
  kept, and opening again a store the tracker has written to, after any sequence of
  records, changes nothing, so both \<open>last\<close> results stay as they were.
\<close>

theorem tracker_open_defaults:
  "(DB_INIT db ''last'' = None \<longrightarrow> UpdateTracker_last_update (UpdateTracker_init db) = Inr 0)
   \<and> (DB_INIT db ''login'' = None \<longrightarrow> UpdateTracker_last_login (UpdateTracker_init db) = Inr 0)
   \<and> (\<exists>v. UpdateTracker_last_update (UpdateTracker_init db) = Inr v)
   \<and> (\<exists>v. UpdateTracker_last_login (UpdateTracker_init db) = Inr v)
   \<and> (\<forall>name v. DB_INIT db name = Some v \<longrightarrow> UpdateTracker_init db name = Some v)
   \<and> UpdateTracker_init (Some (record_all ops (UpdateTracker_init db)))
       = record_all ops (UpdateTracker_init db)"
proof -
  have d: "''last'' \<in> dom (UpdateTracker_init db)" "''login'' \<in> dom (UpdateTracker_init db)"
    by (auto simp: UpdateTracker_init_apply dom_def)
  have "UpdateTracker_init (Some (record_all ops (UpdateTracker_init db)))
       = record_all ops (UpdateTracker_init db)"
    by (rule UpdateTracker_init_fixed) (simp_all add: record_all_dom d)
  then show ?thesis
    using d by (auto simp: UpdateTracker_last_update_def UpdateTracker_last_login_def
       UpdateTracker_init_apply split: option.splits)
qed

theorem tracker_open_defaults_witness:
  "UpdateTracker_last_update (UpdateTracker_init None) = Inr 0
   \<and> UpdateTracker_last_login (UpdateTracker_init (Some [''last'' \<mapsto> 7])) = Inr 0
   \<and> UpdateTracker_init (Some [''last'' \<mapsto> 7]) ''last'' = Some 7
   \<and> UpdateTracker_init (Some (record_all [(UPDATE, 9)] (UpdateTracker_init (Some [''last'' \<mapsto> 7]))))
       = record_all [(UPDATE, 9)] (UpdateTracker_init (Some [''last'' \<mapsto> 7]))"
  using tracker_open_defaults [of None "[]"]
    tracker_open_defaults [of "Some [''last'' \<mapsto> 7]" "[(UPDATE, 9)]"]
  by (simp add: DB_INIT_def)

section \<open>Properties of wall_clock_wait\<close>

lemma wait_now:
  "when \<le> clock e (ticks w) \<Longrightarrow> wall_clock_wait e when p w = Some (Inr (), snd (time e w))"
  by (subst wall_clock_wait.simps) (simp add: time_def)

lemma wait_step:
  "clock e (ticks w) < when \<Longrightarrow> \<not> sigterm e (sleeps w) \<Longrightarrow>
   wall_clock_wait e when p w =
     wall_clock_wait e when p
       (w\<lparr>ticks := Suc (ticks w), sleeps := Suc (sleeps w),
          trace := trace w @ [Time (clock e (ticks w)), Sleep p]\<rparr>)"
  by (subst wall_clock_wait.simps) (simp add: time_def sleep_def)

lemma wait_after:
  "(\<forall>i<k. clock e (ticks w + i) < when \<and> \<not> sigterm e (sleeps w + i)) \<Longrightarrow>
   when \<le> clock e (ticks w + k) \<Longrightarrow>
   wall_clock_wait e when p w =
     Some (Inr (), w\<lparr>ticks := ticks w + Suc k, sleeps := sleeps w + k,
                     trace := trace w @ poll_trace e p (ticks w) k\<rparr>)"
proof (induction k arbitrary: w)
  case 0
  then show ?case by (simp add: wait_now time_def)
next
  case (Suc k)
  define w1 where "w1 = w\<lparr>ticks := Suc (ticks w), sleeps := Suc (sleeps w),
          trace := trace w @ [Time (clock e (ticks w)), Sleep p]\<rparr>"
  have first: "clock e (ticks w) < when" "\<not> sigterm e (sleeps w)"
    using Suc.prems(1) [rule_format, of 0] by simp_all
  have rest: "\<forall>i<k. clock e (ticks w1 + i) < when \<and> \<not> sigterm e (sleeps w1 + i)"
  proof (intro allI impI)
    fix i assume "i < k"
    then have "Suc i < Suc k" by simp
    from Suc.prems(1) [rule_format, OF this] show
      "clock e (ticks w1 + i) < when \<and> \<not> sigterm e (sleeps w1 + i)"
      by (simp add: w1_def)
  qed
  have last: "when \<le> clock e (ticks w1 + k)"
    using Suc.prems(2) by (simp add: w1_def)
  have "wall_clock_wait e when p w = wall_clock_wait e when p w1"
    unfolding w1_def by (rule wait_step [OF first])
  also have "\<dots> = Some (Inr (), w1\<lparr>ticks := ticks w1 + Suc k, sleeps := sleeps w1 + k,
                     trace := trace w1 @ poll_trace e p (ticks w1) k\<rparr>)"
    by (rule Suc.IH [OF rest last])
  also have "w1\<lparr>ticks := ticks w1 + Suc k, sleeps := sleeps w1 + k,
                     trace := trace w1 @ poll_trace e p (ticks w1) k\<rparr>
      = w\<lparr>ticks := ticks w + Suc (Suc k), sleeps := sleeps w + Suc k,
                     trace := trace w @ poll_trace e p (ticks w) (Suc k)\<rparr>"
    by (simp add: w1_def)
  finally show ?case .
qed

lemma wait_interrupted:
  "(\<forall>i<k. clock e (ticks w + i) < when \<and> \<not> sigterm e (sleeps w + i)) \<Longrightarrow>
   clock e (ticks w + k) < when \<Longrightarrow> sigterm e (sleeps w + k) \<Longrightarrow>
   wall_clock_wait e when p w =
     Some (Inl KeyboardInterrupt, w\<lparr>ticks := ticks w + Suc k, sleeps := sleeps w + Suc k,
                     trace := trace w @ poll_trace e p (ticks w) k @ [Sleep p]\<rparr>)"
proof (induction k arbitrary: w)
  case 0
  then show ?case by (subst wall_clock_wait.simps) (simp add: time_def sleep_def)
next
  case (Suc k)
  define w1 where "w1 = w\<lparr>ticks := Suc (ticks w), sleeps := Suc (sleeps w),
          trace := trace w @ [Time (clock e (ticks w)), Sleep p]\<rparr>"
  have first: "clock e (ticks w) < when" "\<not> sigterm e (sleeps w)"
    using Suc.prems(1) [rule_format, of 0] by simp_all
  have rest: "\<forall>i<k. clock e (ticks w1 + i) < when \<and> \<not> sigterm e (sleeps w1 + i)"
  proof (intro allI impI)
    fix i assume "i < k"
    then have "Suc i < Suc k" by simp
    from Suc.prems(1) [rule_format, OF this] show
      "clock e (ticks w1 + i) < when \<and> \<not> sigterm e (sleeps w1 + i)"
      by (simp add: w1_def)
  qed
  have last: "clock e (ticks w1 + k) < when" "sigterm e (sleeps w1 + k)"
    using Suc.prems(2,3) by (simp_all add: w1_def)
  have "wall_clock_wait e when p w = wall_clock_wait e when p w1"
    unfolding w1_def by (rule wait_step [OF first])
  also have "\<dots> = Some (Inl KeyboardInterrupt, w1\<lparr>ticks := ticks w1 + Suc k, sleeps := sleeps w1 + Suc k,
                     trace := trace w1 @ poll_trace e p (ticks w1) k @ [Sleep p]\<rparr>)"
    by (rule Suc.IH [OF rest last])
  also have "w1\<lparr>ticks := ticks w1 + Suc k, sleeps := sleeps w1 + Suc k,
                     trace := trace w1 @ poll_trace e p (ticks w1) k @ [Sleep p]\<rparr>
      = w\<lparr>ticks := ticks w + Suc (Suc k), sleeps := sleeps w + Suc (Suc k),
                     trace := trace w @ poll_trace e p (ticks w) (Suc k) @ [Sleep p]\<rparr>"
    by (simp add: w1_def)
  finally show ?case .
qed

lemma wait_returned:
  assumes "wall_clock_wait e when p w = Some y"
  shows "waited e when p w y"
  using assms
proof (induction rule: wall_clock_wait.raw_induct)
  case (1 f e "when" p w y)
  define w1 where "w1 = w\<lparr>ticks := Suc (ticks w), sleeps := Suc (sleeps w),
          trace := trace w @ [Time (clock e (ticks w)), Sleep p]\<rparr>"
  show ?case
  proof (cases "clock e (ticks w) < when")
    case False
    with 1(2) have y: "y = (Inr (), w\<lparr>ticks := Suc (ticks w),
        trace := trace w @ [Time (clock e (ticks w))]\<rparr>)"
      by (simp add: time_def)
    show ?thesis
      unfolding waited_def
    proof (intro exI [of _ 0] conjI disjI1)
      show "\<forall>i<0. clock e (ticks w + i) < when \<and> \<not> sigterm e (sleeps w + i)" by simp
      show "when \<le> clock e (ticks w + 0)" using False by simp
      show "y = (Inr (), w\<lparr>ticks := ticks w + Suc 0, sleeps := sleeps w + 0,
             trace := trace w @ poll_trace e p (ticks w) 0\<rparr>)"
        by (simp add: y)
    qed
  next
    case below: True
    show ?thesis
    proof (cases "sigterm e (sleeps w)")
      case True
      with below 1(2) have y: "y = (Inl KeyboardInterrupt, w1)"
        by (simp add: time_def sleep_def w1_def)
      show ?thesis
        unfolding waited_def
      proof (intro exI [of _ 0] conjI disjI2)
        show "\<forall>i<0. clock e (ticks w + i) < when \<and> \<not> sigterm e (sleeps w + i)" by simp
        show "clock e (ticks w + 0) < when" using below by simp
        show "sigterm e (sleeps w + 0)" using True by simp
        show "y = (Inl KeyboardInterrupt, w\<lparr>ticks := ticks w + Suc 0, sleeps := sleeps w + Suc 0,
             trace := trace w @ poll_trace e p (ticks w) 0 @ [Sleep p]\<rparr>)"
          by (simp add: y w1_def)
      qed
    next
      case False
      from False below 1(2) have fy: "f e when p w1 = Some y"
        by (simp add: time_def sleep_def w1_def)
      have "wall_clock_wait e when p w = wall_clock_wait e when p w1"
        unfolding w1_def using below False by (rule wait_step)
      with 1(3) have "wall_clock_wait e when p w1 = Some y" by simp
      with fy have "waited e when p w1 y" by (rule 1(1))
      then obtain k where kk:
        "(\<forall>i<k. clock e (ticks w1 + i) < when \<and> \<not> sigterm e (sleeps w1 + i)) \<and>
         ((when \<le> clock e (ticks w1 + k) \<and>
          y = (Inr (), w1\<lparr>ticks := ticks w1 + Suc k, sleeps := sleeps w1 + k,
                     trace := trace w1 @ poll_trace e p (ticks w1) k\<rparr>)) \<or>
         (clock e (ticks w1 + k) < when \<and> sigterm e (sleeps w1 + k) \<and>
          y = (Inl KeyboardInterrupt, w1\<lparr>ticks := ticks w1 + Suc k, sleeps := sleeps w1 + Suc k,
                     trace := trace w1 @ poll_trace e p (ticks w1) k @ [Sleep p]\<rparr>)))"
        unfolding waited_def ..
      from kk have k: "\<forall>i<k. clock e (ticks w1 + i) < when \<and> \<not> sigterm e (sleeps w1 + i)"
        by (rule conjunct1)
      from kk have y: "(when \<le> clock e (ticks w1 + k) \<and>
          y = (Inr (), w1\<lparr>ticks := ticks w1 + Suc k, sleeps := sleeps w1 + k,
                     trace := trace w1 @ poll_trace e p (ticks w1) k\<rparr>)) \<or>
         (clock e (ticks w1 + k) < when \<and> sigterm e (sleeps w1 + k) \<and>
          y = (Inl KeyboardInterrupt, w1\<lparr>ticks := ticks w1 + Suc k, sleeps := sleeps w1 + Suc k,
                     trace := trace w1 @ poll_trace e p (ticks w1) k @ [Sleep p]\<rparr>))"
        by (rule conjunct2)
      have all: "\<forall>i<Suc k. clock e (ticks w + i) < when \<and> \<not> sigterm e (sleeps w + i)"
      proof (intro allI impI)
        fix i assume i: "i < Suc k"
        show "clock e (ticks w + i) < when \<and> \<not> sigterm e (sleeps w + i)"
        proof (cases i)
          case 0
          with below False show ?thesis by simp
        next
          case (Suc j)
          with i have "j < k" by simp
          from k [rule_format, OF this] show ?thesis by (simp add: w1_def Suc)
        qed
      qed
      from y show ?thesis
      proof
        assume a: "when \<le> clock e (ticks w1 + k) \<and>
          y = (Inr (), w1\<lparr>ticks := ticks w1 + Suc k, sleeps := sleeps w1 + k,
                     trace := trace w1 @ poll_trace e p (ticks w1) k\<rparr>)"
        show ?thesis
          unfolding waited_def
        proof (intro exI [of _ "Suc k"] conjI disjI1)
          show "\<forall>i<Suc k. clock e (ticks w + i) < when \<and> \<not> sigterm e (sleeps w + i)" by (rule all)
          show "when \<le> clock e (ticks w + Suc k)" using a by (simp add: w1_def)
          show "y = (Inr (), w\<lparr>ticks := ticks w + Suc (Suc k), sleeps := sleeps w + Suc k,
             trace := trace w @ poll_trace e p (ticks w) (Suc k)\<rparr>)"
            using a by (simp add: w1_def)
        qed
      next
        assume a: "clock e (ticks w1 + k) < when \<and> sigterm e (sleeps w1 + k) \<and>
          y = (Inl KeyboardInterrupt, w1\<lparr>ticks := ticks w1 + Suc k, sleeps := sleeps w1 + Suc k,
                     trace := trace w1 @ poll_trace e p (ticks w1) k @ [Sleep p]\<rparr>)"
        show ?thesis
          unfolding waited_def
        proof (intro exI [of _ "Suc k"] conjI disjI2)
          show "\<forall>i<Suc k. clock e (ticks w + i) < when \<and> \<not> sigterm e (sleeps w + i)" by (rule all)
          show "clock e (ticks w + Suc k) < when" using a by (simp add: w1_def)
          show "sigterm e (sleeps w + Suc k)" using a by (simp add: w1_def)
          show "y = (Inl KeyboardInterrupt, w\<lparr>ticks := ticks w + Suc (Suc k), sleeps := sleeps w + Suc (Suc k),
             trace := trace w @ poll_trace e p (ticks w) (Suc k) @ [Sleep p]\<rparr>)"
            using a by (simp add: w1_def)
        qed
      qed
    qed
  qed
qed (rule assms)

section \<open>Properties of managed_browser\<close>

lemma guard_trace:
  assumes "new_session e (sessions w) = Inr b" and "body (sessions w) b = (fx, r)"
    and "managed_browser e body w = (r', w')"
  shows "\<exists>hx. trace w' = trace w @ [New (sessions w)] @ fx @ hx @ [Quit (sessions w)]
            \<and> Quit (sessions w) \<notin> set hx"
  using assms
  by (auto simp: managed_browser_def Let_def finally_clause_def else_clause_def
        except_WebDriverException_def split: sum.splits if_splits prod.splits)

lemma guard_outcome:
  assumes "new_session e (sessions w) = Inr b" and "body (sessions w) b = (fx, r)"
    and "managed_browser e body w = (r', w')" and "quit b = Inr ()"
  shows "(\<forall>x. r = Inl x \<and> \<not> is_WebDriverException x \<longrightarrow> r' = r)
     \<and> ((\<exists>url. current_url b = Inr url) \<and> (\<exists>c. get_cookies b = Inr c) \<and> r = Inr () \<longrightarrow> r' = r)
     \<and> ((\<exists>url. current_url b = Inr url) \<and> (\<exists>c. get_cookies b = Inr c) \<and> save_screenshot b = Inr ()
            \<and> (\<exists>x. r = Inl x \<and> is_WebDriverException x) \<longrightarrow> r' = r)"
  using assms
  by (auto simp: managed_browser_def Let_def finally_clause_def else_clause_def
        except_WebDriverException_def split: sum.splits if_splits prod.splits)

lemma guard_frame:
  "managed_browser e body w = (r', w') \<Longrightarrow>
   (\<exists>gx. trace w' = trace w @ gx) \<and> tracker w' = tracker w
      \<and> ticks w' = ticks w \<and> sleeps w' = sleeps w \<and> writes w' = writes w
      \<and> sessions w' = Suc (sessions w)"
  by (auto simp: managed_browser_def Let_def finally_clause_def
        split: sum.splits if_splits prod.splits)

lemma guard_screenshot:
  assumes "new_session e (sessions w) = Inr b" and "body (sessions w) b = (fx, r)"
    and "managed_browser e body w = (r', w')"
  shows "((\<exists>x. r = Inl x \<and> is_WebDriverException x) \<and> (\<exists>url. current_url b = Inr url)
            \<and> (\<exists>c. get_cookies b = Inr c) \<and> save_screenshot b = Inr () \<longrightarrow>
          trace w' = trace w @ [New (sessions w)] @ fx @
            [CurrentUrl (sessions w), GetCookies (sessions w),
             SaveScreenshot (sessions w)
               (path_join (screenshot_dir e) (strftime_err (localtime e (sessions w)))),
             Quit (sessions w)]
          \<and> (quit b = Inr () \<longrightarrow> r' = r))
       \<and> ((\<forall>x. r = Inl x \<longrightarrow> \<not> is_WebDriverException x) \<longrightarrow>
          (\<exists>gx. trace w' = trace w @ [New (sessions w)] @ fx @ gx
             \<and> (\<forall>p. SaveScreenshot (sessions w) p \<notin> set gx)))"
  using assms
  by (auto simp: managed_browser_def Let_def finally_clause_def else_clause_def
        except_WebDriverException_def split: sum.splits if_splits prod.splits)

lemmas guard_defs = managed_browser_def Let_def finally_clause_def else_clause_def
  except_WebDriverException_def refresh_body_def update_body_def

lemmas sample_defs = sample_env_def sample_world_def healthy_browser_def sample_time_def
  strftime_err_def pad2_def pad4_def digit_def path_join_def

text \<open>
  Claim C4, amended: in every execution of \<open>managed_browser\<close> that obtained a session, whatever
  the body did (returned, raised an ordinary exception, raised a WebDriverException, raised
  KeyboardInterrupt), \<^verbatim>\<open>quit\<close> is called exactly once, as the last call on the session. The
  outcome of the body is the outcome of the guard when the guard's own calls on the session
  answer: \<^verbatim>\<open>quit\<close> in every case, \<^verbatim>\<open>current_url\<close> and \<^verbatim>\<open>get_cookies\<close> when the body returned or
  raised a WebDriverException, and \<^verbatim>\<open>save_screenshot\<close> as well in the latter case.
\<close>

theorem managed_browser_release:
  assumes "new_session e (sessions w) = Inr b" and "body (sessions w) b = (fx, r)"
    and "managed_browser e body w = (r', w')"
  shows "(\<exists>hx. trace w' = trace w @ [New (sessions w)] @ fx @ hx @ [Quit (sessions w)]
            \<and> Quit (sessions w) \<notin> set hx)
     \<and> (quit b = Inr () \<longrightarrow>
          (\<forall>x. r = Inl x \<and> \<not> is_WebDriverException x \<longrightarrow> r' = r)
        \<and> ((\<exists>url. current_url b = Inr url) \<and> (\<exists>c. get_cookies b = Inr c) \<and> r = Inr () \<longrightarrow> r' = r)
        \<and> ((\<exists>url. current_url b = Inr url) \<and> (\<exists>c. get_cookies b = Inr c) \<and> save_screenshot b = Inr ()
            \<and> (\<exists>x. r = Inl x \<and> is_WebDriverException x) \<longrightarrow> r' = r))"
  using guard_trace [OF assms] guard_outcome [OF assms] by blast

theorem managed_browser_release_witness:
  "managed_browser (sample_env (healthy_browser\<lparr>refresh := Inl KeyboardInterrupt\<rparr>)) refresh_body sample_world
     = (Inl KeyboardInterrupt, sample_world\<lparr>sessions := 1, trace := [New 0, Refresh 0, Quit 0]\<rparr>)
   \<and> snd (refresh_body 0 (healthy_browser\<lparr>refresh := Inl KeyboardInterrupt\<rparr>)) = Inl KeyboardInterrupt"
proof -
  let ?b = "healthy_browser\<lparr>refresh := Inl KeyboardInterrupt\<rparr>"
  have new: "new_session (sample_env ?b) (sessions sample_world) = Inr ?b"
    by (simp add: sample_defs)
  have body: "refresh_body (sessions sample_world) ?b = ([Refresh 0], Inl KeyboardInterrupt)"
    by (simp add: guard_defs sample_defs)
  have run: "managed_browser (sample_env ?b) refresh_body sample_world
     = (Inl KeyboardInterrupt, sample_world\<lparr>sessions := 1, trace := [New 0, Refresh 0, Quit 0]\<rparr>)"
    by (simp add: guard_defs sample_defs)
  from managed_browser_release [OF new body run] run body show ?thesis
    by (simp add: sample_defs)
qed

text \<open>
  Claim C4, as it stands, has the outcome of the body propagate unchanged in every execution.
  A body that returns, on a session whose \<^verbatim>\<open>current_url\<close> raises in the \<^verbatim>\<open>else\<close> clause, leaves
  the guard with that exception.
\<close>

theorem managed_browser_release_counterexample:
  "fst (managed_browser (sample_env (healthy_browser\<lparr>current_url := Inl (WebDriverException 1)\<rparr>))
          refresh_body sample_world)
     \<noteq> snd (refresh_body 0 (healthy_browser\<lparr>current_url := Inl (WebDriverException 1)\<rparr>))"
  by (simp add: guard_defs sample_defs)

text \<open>
  Claim C6, amended: when the body raises a WebDriverException and \<^verbatim>\<open>current_url\<close>,
  \<^verbatim>\<open>get_cookies\<close> and \<^verbatim>\<open>save_screenshot\<close> answer, the guard reads the URL and the cookies, saves
  a screenshot under \<^verbatim>\<open>err-%Y-%m-%d-%H-%M-%S.png\<close> of the local time in the screenshot directory,
  and only then calls \<^verbatim>\<open>quit\<close>; if \<^verbatim>\<open>quit\<close> answers too, the exception of the body is raised to
  the caller. When the body returns or raises anything else, no screenshot is saved.
\<close>

theorem managed_browser_diagnostics:
  assumes "new_session e (sessions w) = Inr b" and "body (sessions w) b = (fx, r)"
    and "managed_browser e body w = (r', w')"
  shows "((\<exists>x. r = Inl x \<and> is_WebDriverException x) \<and> (\<exists>url. current_url b = Inr url)
            \<and> (\<exists>c. get_cookies b = Inr c) \<and> save_screenshot b = Inr () \<longrightarrow>
          trace w' = trace w @ [New (sessions w)] @ fx @
            [CurrentUrl (sessions w), GetCookies (sessions w),
             SaveScreenshot (sessions w)
               (path_join (screenshot_dir e) (strftime_err (localtime e (sessions w)))),
             Quit (sessions w)]
          \<and> (quit b = Inr () \<longrightarrow> r' = r))
       \<and> ((\<forall>x. r = Inl x \<longrightarrow> \<not> is_WebDriverException x) \<longrightarrow>
          (\<exists>gx. trace w' = trace w @ [New (sessions w)] @ fx @ gx
             \<and> (\<forall>p. SaveScreenshot (sessions w) p \<notin> set gx)))"
  using assms by (rule guard_screenshot)

theorem managed_browser_diagnostics_witness:
  "managed_browser (sample_env (healthy_browser\<lparr>update := Inl (WebDriverException 1)\<rparr>)) update_body sample_world
     = (Inl (WebDriverException 1),
        sample_world\<lparr>sessions := 1, trace := [New 0, Update 0, CurrentUrl 0, GetCookies 0,
          SaveScreenshot 0 ''/data/screenshots/err-2024-03-09-17-05-42.png'', Quit 0]\<rparr>)
   \<and> path_join (screenshot_dir (sample_env healthy_browser)) (strftime_err sample_time)
       = ''/data/screenshots/err-2024-03-09-17-05-42.png''"
proof -
  let ?b = "healthy_browser\<lparr>update := Inl (WebDriverException 1)\<rparr>"
  have new: "new_session (sample_env ?b) (sessions sample_world) = Inr ?b"
    by (simp add: sample_defs)
  have body: "update_body (sessions sample_world) ?b = ([Update 0], Inl (WebDriverException 1))"
    by (simp add: guard_defs sample_defs)
  have run: "managed_browser (sample_env ?b) update_body sample_world
     = (Inl (WebDriverException 1),
        sample_world\<lparr>sessions := 1, trace := [New 0, Update 0, CurrentUrl 0, GetCookies 0,
          SaveScreenshot 0 ''/data/screenshots/err-2024-03-09-17-05-42.png'', Quit 0]\<rparr>)"
    by (simp add: guard_defs sample_defs)
  from managed_browser_diagnostics [OF new body run] run show ?thesis
    by (simp add: sample_defs)
qed

text \<open>
  Claim C6, as it stands, has the screenshot saved and the same failure raised again whenever
  the body raises a WebDriverException. On a session whose \<^verbatim>\<open>current_url\<close> raises as well, the
  handler stops at its first call: no screenshot is saved and the caller gets the second
  exception.
\<close>

theorem managed_browser_diagnostics_counterexample:
  "snd (update_body 0 (healthy_browser\<lparr>update := Inl (WebDriverException 1),
          current_url := Inl (WebDriverException 2)\<rparr>)) = Inl (WebDriverException 1)
   \<and> managed_browser (sample_env (healthy_browser\<lparr>update := Inl (WebDriverException 1),
          current_url := Inl (WebDriverException 2)\<rparr>)) update_body sample_world
     = (Inl (WebDriverException 2),
        sample_world\<lparr>sessions := 1, trace := [New 0, Update 0, CurrentUrl 0, Quit 0]\<rparr>)"
  by (simp add: guard_defs sample_defs)

section \<open>Properties of update_loop\<close>

lemma wait_frame:
  assumes "wall_clock_wait e when p w = Some (r, w1)"
  shows "tracker w1 = tracker w \<and> sessions w1 = sessions w \<and> writes w1 = writes w"
proof -
  from assms have "waited e when p w (r, w1)" by (rule wait_returned)
  then show ?thesis unfolding waited_def by auto
qed

lemma try_block_guard:
  "try_block e ev w =
     (case managed_browser e (case ev_what ev of REFRESH \<Rightarrow> refresh_body | UPDATE \<Rightarrow> update_body) w of
        (Inl x, w1) \<Rightarrow> (Inl x, w1)
      | (Inr u, w1) \<Rightarrow>
          db_execute e (tracker_record (ev_what ev) (clock e (ticks w1)))
            ((case ev_what ev of REFRESH \<Rightarrow> TrackerLogin | UPDATE \<Rightarrow> TrackerUpdate)
               (clock e (ticks w1)))
            (w1\<lparr>ticks := Suc (ticks w1), trace := trace w1 @ [Time (clock e (ticks w1))]\<rparr>))"
proof (cases "ev_what ev")
  case REFRESH
  have "tracker_record REFRESH (clock e t) = UpdateTracker_login (clock e t)" for t
    by (rule ext) simp
  with REFRESH show ?thesis
    by (simp add: try_block_def time_def split: prod.splits sum.splits)
next
  case UPDATE
  have "tracker_record UPDATE (clock e t) = UpdateTracker_update (clock e t)" for t
    by (rule ext) simp
  with UPDATE show ?thesis
    by (simp add: try_block_def time_def split: prod.splits sum.splits)
qed

lemma db_execute_frame:
  "db_execute e stmt call w = (r, w') \<Longrightarrow> trace w' = trace w @ [call]"
  by (auto simp: db_execute_def Let_def split: sum.splits)

lemma try_block_frame:
  assumes "try_block e ev w = (r, w')"
  shows "\<exists>gx. trace w' = trace w @ gx"
proof -
  obtain r1 w1 where g: "managed_browser e (case ev_what ev of REFRESH \<Rightarrow> refresh_body | UPDATE \<Rightarrow> update_body) w = (r1, w1)"
    by (cases "managed_browser e (case ev_what ev of REFRESH \<Rightarrow> refresh_body | UPDATE \<Rightarrow> update_body) w")
  from guard_frame [OF g] obtain gx where gx: "trace w1 = trace w @ gx" by blast
  from assms g gx show ?thesis
    by (cases r1) (auto simp: try_block_guard dest: db_execute_frame)
qed

lemma is_Exception_iff: "is_Exception x \<longleftrightarrow> x \<noteq> KeyboardInterrupt"
  by (cases x) simp_all

lemma loop_body_trace:
  assumes "loop_body e ev w = Some (r, w')"
  shows "\<exists>k. (\<forall>i<k. clock e (ticks w + i) < ev_when ev) \<and>
           ((r = Inl KeyboardInterrupt \<and> clock e (ticks w + k) < ev_when ev
               \<and> trace w' = trace w @ poll_trace e 1 (ticks w) k @ [Sleep 1])
          \<or> (ev_when ev \<le> clock e (ticks w + k)
               \<and> (\<exists>gx. trace w' = trace w @ poll_trace e 1 (ticks w) k @ gx)))"
proof -
  from assms obtain y where y: "wall_clock_wait e (ev_when ev) 1 w = Some y"
    by (cases "wall_clock_wait e (ev_when ev) 1 w") (simp_all add: loop_body_def)
  then have "waited e (ev_when ev) 1 w y" by (rule wait_returned)
  then obtain k where kk:
    "(\<forall>i<k. clock e (ticks w + i) < ev_when ev \<and> \<not> sigterm e (sleeps w + i)) \<and>
     ((ev_when ev \<le> clock e (ticks w + k) \<and>
       y = (Inr (), w\<lparr>ticks := ticks w + Suc k, sleeps := sleeps w + k,
                  trace := trace w @ poll_trace e 1 (ticks w) k\<rparr>)) \<or>
      (clock e (ticks w + k) < ev_when ev \<and> sigterm e (sleeps w + k) \<and>
       y = (Inl KeyboardInterrupt, w\<lparr>ticks := ticks w + Suc k, sleeps := sleeps w + Suc k,
                  trace := trace w @ poll_trace e 1 (ticks w) k @ [Sleep 1]\<rparr>)))"
    unfolding waited_def ..
  from kk have below: "\<forall>i<k. clock e (ticks w + i) < ev_when ev" by blast
  from kk consider
    (ret) "ev_when ev \<le> clock e (ticks w + k)"
       "y = (Inr (), w\<lparr>ticks := ticks w + Suc k, sleeps := sleeps w + k,
                  trace := trace w @ poll_trace e 1 (ticks w) k\<rparr>)"
  | (int) "clock e (ticks w + k) < ev_when ev"
       "y = (Inl KeyboardInterrupt, w\<lparr>ticks := ticks w + Suc k, sleeps := sleeps w + Suc k,
                  trace := trace w @ poll_trace e 1 (ticks w) k @ [Sleep 1]\<rparr>)"
    by blast
  then show ?thesis
  proof cases
    case ret
    define w1 where "w1 = w\<lparr>ticks := ticks w + Suc k, sleeps := sleeps w + k,
                  trace := trace w @ poll_trace e 1 (ticks w) k\<rparr>"
    obtain r2 w2 where t: "try_block e ev w1 = (r2, w2)" by (cases "try_block e ev w1")
    from try_block_frame [OF t] obtain gx where gx: "trace w2 = trace w1 @ gx" by blast
    have "\<exists>gx'. trace w' = trace w1 @ gx'"
      using assms y ret(2) t gx unfolding w1_def [symmetric]
      by (cases r2) (auto simp: loop_body_def split: if_splits)
    then have "\<exists>gx. trace w' = trace w @ poll_trace e 1 (ticks w) k @ gx"
      by (simp add: w1_def)
    with below ret(1) show ?thesis by blast
  next
    case int
    from assms y int(2) have "r = Inl KeyboardInterrupt"
      "trace w' = trace w @ poll_trace e 1 (ticks w) k @ [Sleep 1]"
      by (auto simp: loop_body_def)
    with below int(1) show ?thesis by blast
  qed
qed

text \<open>
  Claim C8: a call of \<open>wall_clock_wait\<close> that returns has read the clock \<open>k + 1\<close> times, slept
  \<open>precision\<close> seconds after each of the first \<open>k\<close> readings, which were below \<open>when\<close>, and
  returned on a reading of at least \<open>when\<close>; the only other way out is a KeyboardInterrupt
  raised in a sleep. Conversely, when the clock reaches \<open>when\<close> at reading \<open>k\<close> with no signal
  before, the call does return, after exactly \<open>k\<close> sleeps; when the first reading is already
  at least \<open>when\<close> it returns without sleeping. In the loop, whatever follows the wait of an
  entry comes after a clock reading of at least the entry's \<open>when\<close>.
\<close>

theorem wall_clock_wait_polls:
  "(wall_clock_wait e when p w = Some (r, w') \<longrightarrow>
      (\<exists>k. (\<forall>i<k. clock e (ticks w + i) < when) \<and>
         ((r = Inr () \<and> when \<le> clock e (ticks w + k) \<and> ticks w' = ticks w + Suc k
             \<and> sleeps w' = sleeps w + k \<and> trace w' = trace w @ poll_trace e p (ticks w) k)
        \<or> (r = Inl KeyboardInterrupt \<and> sigterm e (sleeps w + k)
             \<and> trace w' = trace w @ poll_trace e p (ticks w) k @ [Sleep p]))))
   \<and> ((\<forall>i<k. clock e (ticks w + i) < when \<and> \<not> sigterm e (sleeps w + i))
        \<and> when \<le> clock e (ticks w + k) \<longrightarrow>
      wall_clock_wait e when p w =
        Some (Inr (), w\<lparr>ticks := ticks w + Suc k, sleeps := sleeps w + k,
                        trace := trace w @ poll_trace e p (ticks w) k\<rparr>))
   \<and> (when \<le> clock e (ticks w) \<longrightarrow>
      wall_clock_wait e when p w =
        Some (Inr (), w\<lparr>ticks := Suc (ticks w), trace := trace w @ [Time (clock e (ticks w))]\<rparr>))
   \<and> (loop_body e ev w = Some (r, w') \<longrightarrow>
      (\<exists>k. (\<forall>i<k. clock e (ticks w + i) < ev_when ev) \<and>
           ((r = Inl KeyboardInterrupt \<and> clock e (ticks w + k) < ev_when ev
               \<and> trace w' = trace w @ poll_trace e 1 (ticks w) k @ [Sleep 1])
          \<or> (ev_when ev \<le> clock e (ticks w + k)
               \<and> (\<exists>gx. trace w' = trace w @ poll_trace e 1 (ticks w) k @ gx)))))"
proof (intro conjI impI)
  assume a: "wall_clock_wait e when p w = Some (r, w')"
  then have "waited e when p w (r, w')" by (rule wait_returned)
  then show "\<exists>k. (\<forall>i<k. clock e (ticks w + i) < when) \<and>
         ((r = Inr () \<and> when \<le> clock e (ticks w + k) \<and> ticks w' = ticks w + Suc k
             \<and> sleeps w' = sleeps w + k \<and> trace w' = trace w @ poll_trace e p (ticks w) k)
        \<or> (r = Inl KeyboardInterrupt \<and> sigterm e (sleeps w + k)
             \<and> trace w' = trace w @ poll_trace e p (ticks w) k @ [Sleep p]))"
    unfolding waited_def by auto
next
  assume "(\<forall>i<k. clock e (ticks w + i) < when \<and> \<not> sigterm e (sleeps w + i))
        \<and> when \<le> clock e (ticks w + k)"
  then show "wall_clock_wait e when p w =
        Some (Inr (), w\<lparr>ticks := ticks w + Suc k, sleeps := sleeps w + k,
                        trace := trace w @ poll_trace e p (ticks w) k\<rparr>)"
    by (intro wait_after) blast+
next
  assume "when \<le> clock e (ticks w)"
  then show "wall_clock_wait e when p w =
        Some (Inr (), w\<lparr>ticks := Suc (ticks w), trace := trace w @ [Time (clock e (ticks w))]\<rparr>)"
    by (simp add: wait_now time_def)
next
  assume "loop_body e ev w = Some (r, w')"
  then show "\<exists>k. (\<forall>i<k. clock e (ticks w + i) < ev_when ev) \<and>
           ((r = Inl KeyboardInterrupt \<and> clock e (ticks w + k) < ev_when ev
               \<and> trace w' = trace w @ poll_trace e 1 (ticks w) k @ [Sleep 1])
          \<or> (ev_when ev \<le> clock e (ticks w + k)
               \<and> (\<exists>gx. trace w' = trace w @ poll_trace e 1 (ticks w) k @ gx)))"
    by (rule loop_body_trace)
qed

theorem wall_clock_wait_polls_witness:
  "wall_clock_wait (sample_env healthy_browser) 2 1 sample_world =
     Some (Inr (), sample_world\<lparr>ticks := 3, sleeps := 2,
             trace := [Time 0, Sleep 1, Time 1, Sleep 1, Time 2]\<rparr>)
   \<and> wall_clock_wait (sample_env healthy_browser) 0 1 sample_world =
     Some (Inr (), sample_world\<lparr>ticks := 1, trace := [Time 0]\<rparr>)"
proof -
  have two: "\<forall>i<2. clock (sample_env healthy_browser) (ticks sample_world + i) < 2
          \<and> \<not> sigterm (sample_env healthy_browser) (sleeps sample_world + i)"
    by (simp add: sample_env_def sample_world_def)
  have due: "(2::rat) \<le> clock (sample_env healthy_browser) (ticks sample_world + 2)"
    by (simp add: sample_env_def sample_world_def)
  have now: "(0::rat) \<le> clock (sample_env healthy_browser) (ticks sample_world)"
    by (simp add: sample_env_def sample_world_def)
  from wall_clock_wait_polls [of "sample_env healthy_browser" 2 1 sample_world _ _ 2] two due
  have a: "wall_clock_wait (sample_env healthy_browser) 2 1 sample_world =
        Some (Inr (), sample_world\<lparr>ticks := ticks sample_world + Suc 2, sleeps := sleeps sample_world + 2,
                        trace := trace sample_world @ poll_trace (sample_env healthy_browser) 1 (ticks sample_world) 2\<rparr>)"
    by blast
  from wall_clock_wait_polls [of "sample_env healthy_browser" 0 1 sample_world] now
  have b: "wall_clock_wait (sample_env healthy_browser) 0 1 sample_world =
        Some (Inr (), sample_world\<lparr>ticks := Suc (ticks sample_world),
                trace := trace sample_world @ [Time (clock (sample_env healthy_browser) (ticks sample_world))]\<rparr>)"
    by blast
  from a b show ?thesis
    by (simp add: sample_env_def sample_world_def numeral_2_eq_2 numeral_3_eq_3)
qed

lemma loop_body_dispatch:
  assumes wait: "wall_clock_wait e (ev_when ev) 1 w = Some (Inr (), w1)"
    and guard: "managed_browser e (case ev_what ev of REFRESH \<Rightarrow> refresh_body | UPDATE \<Rightarrow> update_body) w1 = (r, w2)"
  shows "loop_body e ev w =
     (case r of
        Inr u \<Rightarrow>
          (case commit e (writes w2) of
             Inr u' \<Rightarrow>
               Some (Inr (), w2\<lparr>tracker := tracker_record (ev_what ev) (clock e (ticks w2)) (tracker w2),
                      ticks := Suc (ticks w2), writes := Suc (writes w2),
                      trace := trace w2 @ [Time (clock e (ticks w2)),
                        (case ev_what ev of REFRESH \<Rightarrow> TrackerLogin | UPDATE \<Rightarrow> TrackerUpdate)
                          (clock e (ticks w2))]\<rparr>)
           | Inl x \<Rightarrow>
               if x = KeyboardInterrupt
               then Some (Inl x, w2\<lparr>ticks := Suc (ticks w2), writes := Suc (writes w2),
                      trace := trace w2 @ [Time (clock e (ticks w2)),
                        (case ev_what ev of REFRESH \<Rightarrow> TrackerLogin | UPDATE \<Rightarrow> TrackerUpdate)
                          (clock e (ticks w2))]\<rparr>)
               else Some (Inr (), w2\<lparr>ticks := Suc (ticks w2), writes := Suc (writes w2),
                      trace := trace w2 @ [Time (clock e (ticks w2)),
                        (case ev_what ev of REFRESH \<Rightarrow> TrackerLogin | UPDATE \<Rightarrow> TrackerUpdate)
                          (clock e (ticks w2)),
                        LogFailure (ev_what ev) x]\<rparr>))
      | Inl x \<Rightarrow>
          if x = KeyboardInterrupt then Some (Inl x, w2)
          else Some (Inr (), w2\<lparr>trace := trace w2 @ [LogFailure (ev_what ev) x]\<rparr>))"
  using wait guard
  by (cases r; cases "commit e (writes w2)")
     (simp_all add: loop_body_def try_block_guard is_Exception_iff db_execute_def Let_def)



lemmas loop_defs = loop_body_def try_block_def time_def wait_now db_execute_def


lemma guard_interrupt:
  assumes "new_session e (sessions w) = Inr b" and "body (sessions w) b = (fx, Inl KeyboardInterrupt)"
    and "quit b = Inr ()"
  shows "managed_browser e body w =
           (Inl KeyboardInterrupt,
            w\<lparr>sessions := Suc (sessions w),
              trace := trace w @ [New (sessions w)] @ fx @ [Quit (sessions w)]\<rparr>)"
  using assms by (simp add: managed_browser_def Let_def finally_clause_def)

lemma loop_body_interrupt:
  "wall_clock_wait e (ev_when ev) 1 w = Some (Inl KeyboardInterrupt, w1) \<Longrightarrow>
   loop_body e ev w = Some (Inl KeyboardInterrupt, w1)"
  by (simp add: loop_body_def)

text \<open>
  Claim C7, amended: a KeyboardInterrupt raised during the wait, or coming out of the guarded
  action, leaves the loop at once: the result of the loop is that exception with the state
  at the point where it was raised, whatever entries remain, and the tracker is not
  written. A KeyboardInterrupt raised by the body of the guard comes out of the guard when
  \<^verbatim>\<open>quit\<close> answers.
\<close>

theorem keyboard_interrupt_leaves_loop:
  "(wall_clock_wait e (ev_when ev) 1 w = Some (Inl KeyboardInterrupt, w1) \<longrightarrow>
      for_events e (ev # evs) w = Some (Inl KeyboardInterrupt, w1))
   \<and> (wall_clock_wait e (ev_when ev) 1 w = Some (Inr (), w1)
        \<and> managed_browser e (case ev_what ev of REFRESH \<Rightarrow> refresh_body | UPDATE \<Rightarrow> update_body) w1
            = (Inl KeyboardInterrupt, w2) \<longrightarrow>
      for_events e (ev # evs) w = Some (Inl KeyboardInterrupt, w2) \<and> tracker w2 = tracker w)
   \<and> (new_session e (sessions w) = Inr b \<and> body (sessions w) b = (fx, Inl KeyboardInterrupt)
        \<and> quit b = Inr () \<longrightarrow>
      managed_browser e body w =
        (Inl KeyboardInterrupt,
         w\<lparr>sessions := Suc (sessions w),
           trace := trace w @ [New (sessions w)] @ fx @ [Quit (sessions w)]\<rparr>))"
proof (intro conjI impI)
  assume "wall_clock_wait e (ev_when ev) 1 w = Some (Inl KeyboardInterrupt, w1)"
  then show "for_events e (ev # evs) w = Some (Inl KeyboardInterrupt, w1)"
    by (simp add: loop_body_interrupt)
next
  assume a: "wall_clock_wait e (ev_when ev) 1 w = Some (Inr (), w1)
        \<and> managed_browser e (case ev_what ev of REFRESH \<Rightarrow> refresh_body | UPDATE \<Rightarrow> update_body) w1
            = (Inl KeyboardInterrupt, w2)"
  then have "loop_body e ev w = Some (Inl KeyboardInterrupt, w2)"
    by (simp add: loop_body_dispatch)
  then show "for_events e (ev # evs) w = Some (Inl KeyboardInterrupt, w2)" by simp
  from a have g: "managed_browser e (case ev_what ev of REFRESH \<Rightarrow> refresh_body | UPDATE \<Rightarrow> update_body) w1
            = (Inl KeyboardInterrupt, w2)" ..
  from a have ww: "wall_clock_wait e (ev_when ev) 1 w = Some (Inr (), w1)" ..
  from wait_frame [OF ww] guard_frame [OF g]
  show "tracker w2 = tracker w" by simp
next
  assume "new_session e (sessions w) = Inr b \<and> body (sessions w) b = (fx, Inl KeyboardInterrupt)
        \<and> quit b = Inr ()"
  then show "managed_browser e body w =
        (Inl KeyboardInterrupt,
         w\<lparr>sessions := Suc (sessions w),
           trace := trace w @ [New (sessions w)] @ fx @ [Quit (sessions w)]\<rparr>)"
    by (simp add: guard_interrupt)
qed

theorem keyboard_interrupt_leaves_loop_witness:
  "for_events (sample_env (healthy_browser\<lparr>update := Inl KeyboardInterrupt\<rparr>))
     [\<lparr>ev_when = 0, ev_what = UPDATE\<rparr>, \<lparr>ev_when = 0, ev_what = REFRESH\<rparr>] sample_world
   = Some (Inl KeyboardInterrupt,
           sample_world\<lparr>ticks := 1, sessions := 1, trace := [Time 0, New 0, Update 0, Quit 0]\<rparr>)"
proof -
  let ?b = "healthy_browser\<lparr>update := Inl KeyboardInterrupt\<rparr>"
  let ?e = "sample_env ?b"
  let ?u = "\<lparr>ev_when = 0, ev_what = UPDATE\<rparr>"
  let ?r = "\<lparr>ev_when = 0, ev_what = REFRESH\<rparr>"
  let ?w1 = "sample_world\<lparr>ticks := 1, trace := [Time 0]\<rparr>"
  let ?w2 = "sample_world\<lparr>ticks := 1, sessions := 1, trace := [Time 0, New 0, Update 0, Quit 0]\<rparr>"
  have wait1: "wall_clock_wait ?e (ev_when ?u) 1 sample_world = Some (Inr (), ?w1)"
    by (simp add: wait_now time_def sample_defs)
  have guard1: "managed_browser ?e (case ev_what ?u of REFRESH \<Rightarrow> refresh_body | UPDATE \<Rightarrow> update_body) ?w1
                  = (Inl KeyboardInterrupt, ?w2)"
    by (simp add: guard_defs sample_defs)
  from keyboard_interrupt_leaves_loop [of ?e ?u sample_world ?w1 "[?r]" ?w2] wait1 guard1
  show ?thesis by simp
qed

text \<open>
  Claim C7, as it stands, has every KeyboardInterrupt raised during a dispatch leave the
  loop. When \<^verbatim>\<open>quit\<close> raises a WebDriverException in the \<^verbatim>\<open>finally\<close> clause while a
  KeyboardInterrupt of the body is on its way out, the guard raises the WebDriverException
  instead; the loop logs it and dispatches the next entry.
\<close>

theorem keyboard_interrupt_counterexample:
  "snd (update_body 0 (healthy_browser\<lparr>update := Inl KeyboardInterrupt, quit := Inl (WebDriverException 3)\<rparr>))
     = Inl KeyboardInterrupt
   \<and> for_events (sample_env (healthy_browser\<lparr>update := Inl KeyboardInterrupt, quit := Inl (WebDriverException 3)\<rparr>))
     [\<lparr>ev_when = 0, ev_what = UPDATE\<rparr>, \<lparr>ev_when = 0, ev_what = REFRESH\<rparr>] sample_world
   = Some (Inr (), sample_world\<lparr>ticks := 2, sessions := 2,
        trace := [Time 0, New 0, Update 0, Quit 0, LogFailure UPDATE (WebDriverException 3),
                  Time 1, New 1, Refresh 1, CurrentUrl 1, GetCookies 1, Quit 1,
                  LogFailure REFRESH (WebDriverException 3)]\<rparr>)"
  by (simp add: loop_defs guard_defs sample_defs)

section \<open>Properties of random_interval\<close>

lemma random_interval_bounds:
  assumes "m < M" and "0 \<le> u" and "u < 1"
  shows "B + m \<le> random_interval B m M u" and "random_interval B m M u < B + M"
proof -
  from assms have d: "0 < M - m" by simp
  from assms d have "0 \<le> u * (M - m)" by simp
  then show "B + m \<le> random_interval B m M u" by (simp add: random_interval_def)
  from assms(3) d have "u * (M - m) < 1 * (M - m)" by (rule mult_strict_right_mono)
  then show "random_interval B m M u < B + M" by (simp add: random_interval_def)
qed

lemma round_even_cases: "round_even x = \<lfloor>x\<rfloor> \<or> (round_even x = \<lfloor>x\<rfloor> + 1 \<and> of_int \<lfloor>x\<rfloor> < x)"
  by (auto simp: round_even_def Let_def)

lemma round_even_le: "x \<le> of_int K \<Longrightarrow> round_even x \<le> K"
proof -
  assume a: "x \<le> of_int K"
  then have f: "\<lfloor>x\<rfloor> \<le> K" by (simp add: floor_le_iff)
  from round_even_cases [of x] show ?thesis
  proof
    assume "round_even x = \<lfloor>x\<rfloor>"
    with f show ?thesis by simp
  next
    assume b: "round_even x = \<lfloor>x\<rfloor> + 1 \<and> of_int \<lfloor>x\<rfloor> < x"
    with a have "(of_int \<lfloor>x\<rfloor> :: rat) < of_int K" by simp
    then have "\<lfloor>x\<rfloor> < K" by simp
    with b show ?thesis by simp
  qed
qed

lemma round_even_ge: "of_int K \<le> x \<Longrightarrow> K \<le> round_even x"
proof -
  assume "of_int K \<le> x"
  then have "K \<le> \<lfloor>x\<rfloor>" by (simp add: le_floor_iff)
  with round_even_cases [of x] show ?thesis by auto
qed

lemma pow2_nonpos: "e \<le> 0 \<Longrightarrow> pow2 e = 1 / 2 ^ nat (- e)"
  by (cases "e = 0") (simp_all add: pow2_def)

lemma pow2_ge: "53 \<le> d \<Longrightarrow> 2 ^ 53 \<le> pow2 d"
proof -
  assume a: "53 \<le> d"
  then have "(53::nat) \<le> nat d" by simp
  then have "(2::rat) ^ 53 \<le> 2 ^ nat d" by (intro power_increasing) simp_all
  with a show ?thesis by (simp add: pow2_def)
qed

lemma binade_le:
  assumes "0 < x" and "x < 2 ^ 53"
  shows "binade x \<le> 52"
proof -
  obtain p q where pq: "quotient_of x = (p, q)" by (cases "quotient_of x")
  then have q: "0 < q" by (rule quotient_of_denom_pos)
  from pq have x: "x = of_int p / of_int q" by (rule quotient_of_div)
  with assms(1) q have p: "0 < p" by (simp add: zero_less_divide_iff)
  define d where "d = bitlen p - bitlen q"
  from assms(1) pq have b: "binade x = (if pow2 d \<le> x then d else d - 1)"
    by (simp add: binade_def d_def Let_def)
  show ?thesis
  proof (cases "pow2 d \<le> x")
    case True
    have "d < 53"
    proof (rule ccontr)
      assume "\<not> d < 53"
      then have "2 ^ 53 \<le> pow2 d" by (intro pow2_ge) simp
      with True assms(2) show False by simp
    qed
    with True b show ?thesis by simp
  next
    case False
    have "d \<le> 53"
    proof (rule ccontr)
      assume "\<not> d \<le> 53"
      then have d54: "bitlen q + 54 \<le> bitlen p" by (simp add: d_def)
      from bitlen_bounds [OF p] have lo: "2 ^ nat (bitlen p - 1) \<le> p" by simp
      from bitlen_bounds [OF q] have hi: "q < 2 ^ nat (bitlen q)" by simp
      from q have bq: "0 \<le> bitlen q" by (simp add: bitlen_nonneg)
      from d54 bq have "nat (bitlen q) + 53 \<le> nat (bitlen p - 1)" by simp
      then have "(2::int) ^ (nat (bitlen q) + 53) \<le> 2 ^ nat (bitlen p - 1)"
        by (intro power_increasing) simp_all
      with lo have "(2::int) ^ nat (bitlen q) * 2 ^ 53 \<le> p" by (simp add: power_add)
      moreover from hi have "q * 2 ^ 53 < (2::int) ^ nat (bitlen q) * 2 ^ 53" by simp
      ultimately have "q * 2 ^ 53 < p" by simp
      then have "(of_int (q * 2 ^ 53) :: rat) < of_int p" by (simp only: of_int_less_iff)
      then have "(of_int q :: rat) * 2 ^ 53 < of_int p" by simp
      with q have "(2::rat) ^ 53 < of_int p / of_int q" by (simp add: pos_less_divide_eq mult.commute)
      with x assms(2) show False by simp
    qed
    with False b show ?thesis by simp
  qed
qed

lemma round_double_scaled:
  assumes "0 < x" and "x < 2 ^ 53"
  shows "\<exists>k. round_double x = of_int (round_even (x * 2 ^ k)) / 2 ^ k"
proof -
  define e where "e = max (binade x) (- 1022) - 52"
  from binade_le [OF assms] have "e \<le> 0" by (simp add: e_def)
  then have "pow2 e = 1 / 2 ^ nat (- e)" by (rule pow2_nonpos)
  with assms(1) have "round_double x = of_int (round_even (x * 2 ^ nat (- e))) / 2 ^ nat (- e)"
    by (simp add: round_double_def Let_def e_def [symmetric])
  then show ?thesis ..
qed

lemma round_double_le:
  assumes "0 \<le> x" and "x \<le> of_int K" and "(of_int K :: rat) < 2 ^ 53"
  shows "round_double x \<le> of_int K"
proof (cases "x = 0")
  case True
  with assms show ?thesis by (simp add: round_double_def)
next
  case False
  with assms have pos: "0 < x" and small: "x < 2 ^ 53" by simp_all
  from round_double_scaled [OF pos small] obtain k where
    k: "round_double x = of_int (round_even (x * 2 ^ k)) / 2 ^ k" ..
  from assms(2) have "x * 2 ^ k \<le> of_int K * 2 ^ k" by simp
  then have "x * 2 ^ k \<le> of_int (K * 2 ^ k)" by simp
  then have "round_even (x * 2 ^ k) \<le> K * 2 ^ k" by (rule round_even_le)
  then have "(of_int (round_even (x * 2 ^ k)) :: rat) \<le> of_int (K * 2 ^ k)"
    by (simp only: of_int_le_iff)
  then have "(of_int (round_even (x * 2 ^ k)) :: rat) \<le> of_int K * 2 ^ k" by simp
  then have "(of_int (round_even (x * 2 ^ k)) :: rat) / 2 ^ k \<le> of_int K"
    by (simp add: pos_divide_le_eq)
  with k show ?thesis by simp
qed

lemma round_double_ge:
  assumes "0 \<le> K" and "of_int K \<le> x" and "x < 2 ^ 53"
  shows "of_int K \<le> round_double x"
proof (cases "x = 0")
  case True
  with assms show ?thesis by (simp add: round_double_def)
next
  case False
  with assms have pos: "0 < x" by simp
  from round_double_scaled [OF pos assms(3)] obtain k where
    k: "round_double x = of_int (round_even (x * 2 ^ k)) / 2 ^ k" ..
  from assms(2) have "of_int K * 2 ^ k \<le> x * 2 ^ k" by simp
  then have "of_int (K * 2 ^ k) \<le> x * 2 ^ k" by simp
  then have "K * 2 ^ k \<le> round_even (x * 2 ^ k)" by (rule round_even_ge)
  then have "(of_int (K * 2 ^ k) :: rat) \<le> of_int (round_even (x * 2 ^ k))"
    by (simp only: of_int_le_iff)
  then have "(of_int K :: rat) * 2 ^ k \<le> of_int (round_even (x * 2 ^ k))" by simp
  then have "(of_int K :: rat) \<le> of_int (round_even (x * 2 ^ k)) / 2 ^ k"
    by (simp add: pos_le_divide_eq)
  with k show ?thesis by simp
qed

lemma round_double_int:
  assumes "0 \<le> K" and "(of_int K :: rat) < 2 ^ 53"
  shows "round_double (of_int K) = of_int K"
proof (rule antisym)
  from assms show "round_double (of_int K) \<le> of_int K"
    by (intro round_double_le) simp_all
  from assms show "of_int K \<le> round_double (of_int K)"
    by (intro round_double_ge) simp_all
qed

lemma random_interval_double_bounds:
  assumes "0 \<le> b + m" and "m < M" and "(of_int (b + M) :: rat) < 2 ^ 53"
    and "0 \<le> u" and "u < 1"
  shows "of_int (b + m) \<le> random_interval_double b m M u"
    and "random_interval_double b m M u \<le> of_int (b + M)"
proof -
  from assms(1,2) have D: "0 \<le> M - m" "M - m \<le> b + M" by simp_all
  from D(2) have "(of_int (M - m) :: rat) \<le> of_int (b + M)" by (simp only: of_int_le_iff)
  with assms(3) have Ds: "(of_int (M - m) :: rat) < 2 ^ 53" by simp
  from assms(1,2) have "b + m \<le> b + M" by simp
  then have "(of_int (b + m) :: rat) \<le> of_int (b + M)" by (simp only: of_int_le_iff)
  with assms(3) have As: "(of_int (b + m) :: rat) < 2 ^ 53" by simp
  have rD: "round_double (of_int (M - m)) = of_int (M - m)"
    using D(1) Ds by (rule round_double_int)
  have rA: "round_double (of_int (b + m)) = of_int (b + m)"
    using assms(1) As by (rule round_double_int)
  define x1 :: rat where "x1 = u * of_int (M - m)"
  from assms(4) D(1) have x1lo: "0 \<le> x1" by (simp add: x1_def)
  from assms(5) assms(4) D(1) have "u * of_int (M - m) \<le> 1 * (of_int (M - m) :: rat)"
    by (intro mult_right_mono) simp_all
  then have x1hi: "x1 \<le> of_int (M - m)" by (simp add: x1_def)
  define p where "p = round_double x1"
  from x1hi Ds have "x1 < 2 ^ 53" by simp
  with x1lo have "of_int 0 \<le> round_double x1" by (intro round_double_ge) simp_all
  then have plo: "0 \<le> p" by (simp add: p_def)
  from x1lo x1hi Ds have phi: "p \<le> of_int (M - m)" unfolding p_def by (rule round_double_le)
  define x2 :: rat where "x2 = of_int (b + m) + p"
  from plo have x2lo: "of_int (b + m) \<le> x2" by (simp add: x2_def)
  from phi have x2hi: "x2 \<le> of_int (b + M)" by (simp add: x2_def)
  from x2lo assms(1) have x2nn: "0 \<le> x2" by (smt (verit) of_int_0_le_iff order_trans)
  from x2hi assms(3) have x2s: "x2 < 2 ^ 53" by simp
  have eq: "random_interval_double b m M u = round_double x2"
    unfolding random_interval_double_def rD rA x2_def p_def x1_def by (rule refl)
  from assms(1) x2lo x2s show "of_int (b + m) \<le> random_interval_double b m M u"
    unfolding eq by (rule round_double_ge)
  from x2nn x2hi assms(3) show "random_interval_double b m M u \<le> of_int (b + M)"
    unfolding eq by (rule round_double_le)
qed

lemma random_interval_double_zero:
  assumes "0 \<le> b + m" and "m < M" and "(of_int (b + M) :: rat) < 2 ^ 53"
  shows "random_interval_double b m M 0 = of_int (b + m)"
proof -
  from assms(1,2) have "b + m \<le> b + M" by simp
  then have "(of_int (b + m) :: rat) \<le> of_int (b + M)" by (simp only: of_int_le_iff)
  with assms(3) have As: "(of_int (b + m) :: rat) < 2 ^ 53" by simp
  have rA: "round_double (of_int (b + m)) = of_int (b + m)"
    using assms(1) As by (rule round_double_int)
  have z: "round_double 0 = 0" by (simp add: round_double_def)
  show ?thesis
    unfolding random_interval_double_def by (simp only: mult_zero_left z rA add_0_right)
qed

text \<open>
  Claim C10, as it stands, has the interval strictly below \<open>B + M\<close> for every draw in \<open>[0, 1)\<close>.
  In binary64, with the session refresh constants 3600, 10 and 60 and the largest draw
  \<open>1 - 2^-53\<close>, the product rounds to \<open>50 - 2^-47\<close> and the sum rounds to 3660.
\<close>

theorem random_interval_double_counterexample:
  "is_draw (1 - 1 / 2 ^ 53)
   \<and> random_interval_double 3600 10 60 (1 - 1 / 2 ^ 53) = 3600 + 60"
  by code_simp

text \<open>
  Claim C10, amended: in exact arithmetic the interval lies in \<open>[B + m, B + M)\<close> for every draw
  in \<open>[0, 1)\<close> and \<open>m < M\<close>, and equals \<open>B + m\<close> at draw 0. In binary64, for integer parameters
  with \<open>0 \<le> B + m\<close>, \<open>m < M\<close> and \<open>B + M < 2^53\<close>, the computed interval lies in the closed range
  \<open>[B + m, B + M]\<close> and equals \<open>B + m\<close> at draw 0.
\<close>

theorem random_interval_range:
  "(m < M \<and> 0 \<le> u \<and> u < 1 \<longrightarrow>
      B + m \<le> random_interval B m M u \<and> random_interval B m M u < B + M)
   \<and> random_interval B m M 0 = B + m
   \<and> (0 \<le> b + k \<and> k < K \<and> (of_int (b + K) :: rat) < 2 ^ 53 \<and> 0 \<le> u \<and> u < 1 \<longrightarrow>
        of_int (b + k) \<le> random_interval_double b k K u
      \<and> random_interval_double b k K u \<le> of_int (b + K)
      \<and> random_interval_double b k K 0 = of_int (b + k))"
proof (intro conjI impI)
  assume a: "m < M \<and> 0 \<le> u \<and> u < 1"
  then have h: "m < M" "0 \<le> u" "u < 1" by simp_all
  show "B + m \<le> random_interval B m M u" by (rule random_interval_bounds(1) [OF h])
  show "random_interval B m M u < B + M" by (rule random_interval_bounds(2) [OF h])
next
  show "random_interval B m M 0 = B + m" by (simp add: random_interval_def)
next
  assume a: "0 \<le> b + k \<and> k < K \<and> (of_int (b + K) :: rat) < 2 ^ 53 \<and> 0 \<le> u \<and> u < 1"
  then have h: "0 \<le> b + k" "k < K" "(of_int (b + K) :: rat) < 2 ^ 53" "0 \<le> u" "u < 1"
    by simp_all
  show "of_int (b + k) \<le> random_interval_double b k K u"
    by (rule random_interval_double_bounds(1) [OF h])
  show "random_interval_double b k K u \<le> of_int (b + K)"
    by (rule random_interval_double_bounds(2) [OF h])
  show "random_interval_double b k K 0 = of_int (b + k)"
    by (rule random_interval_double_zero [OF h(1,2,3)])
qed

lemma sample_interval_double: "random_interval_double 3600 10 60 (1 / 2) = 3635"
  by code_simp

theorem random_interval_range_witness:
  "random_interval 3600 10 60 (1 / 2) = 3635
   \<and> 3610 \<le> random_interval 3600 10 60 (1 / 2) \<and> random_interval 3600 10 60 (1 / 2) < 3660
   \<and> random_interval_double 3600 10 60 (1 / 2) = 3635
   \<and> 3610 \<le> random_interval_double 3600 10 60 (1 / 2)
   \<and> random_interval_double 3600 10 60 (1 / 2) \<le> 3660
   \<and> random_interval_double 3600 10 60 0 = 3610"
proof -
  have h1: "(10::rat) < 60 \<and> (0::rat) \<le> 1 / 2 \<and> (1::rat) / 2 < 1" by simp
  have h2: "(0::int) \<le> 3600 + 10 \<and> (10::int) < 60 \<and> (of_int (3600 + 60) :: rat) < 2 ^ 53
      \<and> (0::rat) \<le> 1 / 2 \<and> (1::rat) / 2 < 1"
    by simp
  note t = random_interval_range [where B = 3600 and m = 10 and M = 60 and u = "1 / 2"
      and b = 3600 and k = 10 and K = 60]
  from t h1 have a: "3600 + 10 \<le> random_interval 3600 10 60 (1 / 2)
      \<and> random_interval 3600 10 60 (1 / 2) < 3600 + 60"
    by blast
  from t h2 have b: "of_int (3600 + 10) \<le> random_interval_double 3600 10 60 (1 / 2)
      \<and> random_interval_double 3600 10 60 (1 / 2) \<le> of_int (3600 + 60)
      \<and> random_interval_double 3600 10 60 0 = of_int (3600 + 10)"
    by blast
  have c: "random_interval 3600 10 60 (1 / 2) = 3635" by (simp add: random_interval_def)
  from a b c sample_interval_double show ?thesis by simp
qed

section \<open>Properties of the Scheduler\<close>




lemma least_index_props:
  "ks \<noteq> [] \<Longrightarrow>
     least_index ks < length ks
   \<and> (\<forall>j<length ks. ks ! least_index ks \<le> ks ! j)
   \<and> (\<forall>j<least_index ks. ks ! least_index ks < ks ! j)"
proof (induction ks rule: least_index.induct)
  case 1
  then show ?case by simp
next
  case (2 k)
  then show ?case by simp
next
  case (3 k k' ks)
  let ?ks = "k' # ks"
  let ?j = "least_index ?ks"
  from 3 have IH: "?j < length ?ks" "\<forall>j<length ?ks. ?ks ! ?j \<le> ?ks ! j"
    "\<forall>j<?j. ?ks ! ?j < ?ks ! j"
    by simp_all
  show ?case
  proof (cases "k \<le> ?ks ! ?j")
    case True
    then have li: "least_index (k # ?ks) = 0" by simp
    have "\<forall>j<length (k # ?ks). (k # ?ks) ! 0 \<le> (k # ?ks) ! j"
    proof (intro allI impI)
      fix j assume j: "j < length (k # ?ks)"
      show "(k # ?ks) ! 0 \<le> (k # ?ks) ! j"
      proof (cases j)
        case 0
        then show ?thesis by simp
      next
        case (Suc j')
        with j have "j' < length ?ks" by simp
        with IH(2) have "?ks ! ?j \<le> ?ks ! j'" by blast
        with True Suc show ?thesis by simp
      qed
    qed
    with li show ?thesis by simp
  next
    case False
    then have li: "least_index (k # ?ks) = Suc ?j" by simp
    from False have lt: "?ks ! ?j < k" by simp
    have a: "\<forall>j<length (k # ?ks). (k # ?ks) ! Suc ?j \<le> (k # ?ks) ! j"
    proof (intro allI impI)
      fix j assume j: "j < length (k # ?ks)"
      show "(k # ?ks) ! Suc ?j \<le> (k # ?ks) ! j"
      proof (cases j)
        case 0
        with lt show ?thesis by simp
      next
        case (Suc j')
        with j have "j' < length ?ks" by simp
        with IH(2) have "?ks ! ?j \<le> ?ks ! j'" by blast
        with Suc show ?thesis by simp
      qed
    qed
    have b: "\<forall>j<Suc ?j. (k # ?ks) ! Suc ?j < (k # ?ks) ! j"
    proof (intro allI impI)
      fix j assume j: "j < Suc ?j"
      show "(k # ?ks) ! Suc ?j < (k # ?ks) ! j"
      proof (cases j)
        case 0
        with lt show ?thesis by simp
      next
        case (Suc j')
        with j have "j' < ?j" by simp
        with IH(3) have "?ks ! ?j < ?ks ! j'" by blast
        with Suc show ?thesis by simp
      qed
    qed
    from li IH(1) a b show ?thesis by simp
  qed
qed

lemma pending_nth:
  "length ps = length ss \<Longrightarrow> j < length ss \<Longrightarrow> pending key ss ps ! j = key ((ss ! j) (ps ! j))"
  by (simp add: pending_def)

lemma pending_length: "length ps = length ss \<Longrightarrow> length (pending key ss ps) = length ss"
  by (simp add: pending_def)

lemma merge_source:
  "length ps = length ss \<Longrightarrow> (j, b) \<in> set (heapq_merge key n ss ps) \<Longrightarrow>
   j < length ss \<and> (\<exists>q\<ge>ps ! j. b = (ss ! j) q)"
proof (induction n arbitrary: ps)
  case 0
  then show ?case by simp
next
  case (Suc n)
  show ?case
  proof (cases "ss = []")
    case True
    with Suc.prems show ?thesis by simp
  next
    case False
    define i where "i = least_index (pending key ss ps)"
    from False pending_length [OF Suc.prems(1), of key] have ne: "pending key ss ps \<noteq> []"
      by auto
    from least_index_props [OF ne] have i: "i < length ss"
      by (simp add: i_def pending_length [OF Suc.prems(1)])
    from False Suc.prems(2) have
      "(j, b) = (i, (ss ! i) (ps ! i)) \<or> (j, b) \<in> set (heapq_merge key n ss (ps[i := Suc (ps ! i)]))"
      by (simp add: Let_def i_def)
    then show ?thesis
    proof
      assume "(j, b) = (i, (ss ! i) (ps ! i))"
      with i show ?thesis by auto
    next
      assume m: "(j, b) \<in> set (heapq_merge key n ss (ps[i := Suc (ps ! i)]))"
      from Suc.prems(1) have len: "length (ps[i := Suc (ps ! i)]) = length ss" by simp
      from Suc.IH [OF len m] obtain q where
        j: "j < length ss" and q: "(ps[i := Suc (ps ! i)]) ! j \<le> q" "b = (ss ! j) q"
        by blast
      from j Suc.prems(1) have "ps ! j \<le> (ps[i := Suc (ps ! i)]) ! j"
        by (cases "i = j") simp_all
      with q(1) have "ps ! j \<le> q" by linarith
      with q(2) j show ?thesis by blast
    qed
  qed
qed

lemma merge_sorted:
  assumes mono: "\<forall>s\<in>set ss. \<forall>p q. p \<le> q \<longrightarrow> key (s p) \<le> key (s q)"
  shows "length ps = length ss \<Longrightarrow>
    sorted_wrt (\<lambda>x y. key (snd x) < key (snd y) \<or> (key (snd x) = key (snd y) \<and> fst x \<le> fst y))
      (heapq_merge key n ss ps)"
proof (induction n arbitrary: ps)
  case 0
  then show ?case by simp
next
  case (Suc n)
  show ?case
  proof (cases "ss = []")
    case True
    then show ?thesis by simp
  next
    case False
    define i where "i = least_index (pending key ss ps)"
    define ps' where "ps' = ps[i := Suc (ps ! i)]"
    from False pending_length [OF Suc.prems(1), of key] have ne: "pending key ss ps \<noteq> []"
      by auto
    note li = least_index_props [OF ne, folded i_def, unfolded pending_length [OF Suc.prems(1)]]
    from li have i: "i < length ss" by blast
    from Suc.prems(1) have len: "length ps' = length ss" by (simp add: ps'_def)
    have step: "heapq_merge key (Suc n) ss ps = (i, (ss ! i) (ps ! i)) # heapq_merge key n ss ps'"
      using False by (simp add: Let_def i_def ps'_def)
    have head: "key ((ss ! i) (ps ! i)) < key b \<or> (key ((ss ! i) (ps ! i)) = key b \<and> i \<le> j)"
      if m: "(j, b) \<in> set (heapq_merge key n ss ps')" for j b
    proof -
      from merge_source [OF len m] obtain q where
        j: "j < length ss" and q: "ps' ! j \<le> q" "b = (ss ! j) q"
        by blast
      from j Suc.prems(1) have "ps ! j \<le> ps' ! j"
        by (cases "i = j") (simp_all add: ps'_def)
      with q(1) have pq: "ps ! j \<le> q" by simp
      from j have "ss ! j \<in> set ss" by simp
      with mono pq have "key ((ss ! j) (ps ! j)) \<le> key ((ss ! j) q)" by blast
      with q(2) have ge: "pending key ss ps ! j \<le> key b"
        by (simp add: pending_nth [OF Suc.prems(1) j])
      have pi: "pending key ss ps ! i = key ((ss ! i) (ps ! i))"
        by (rule pending_nth [OF Suc.prems(1) i])
      from li j have le: "pending key ss ps ! i \<le> pending key ss ps ! j" by blast
      show ?thesis
      proof (cases "i \<le> j")
        case True
        with le ge pi show ?thesis by auto
      next
        case False
        then have "j < i" by simp
        with li have "pending key ss ps ! i < pending key ss ps ! j" by blast
        with ge pi show ?thesis by auto
      qed
    qed
    from Suc.IH [OF len] head show ?thesis
      unfolding step by auto
  qed
qed

lemma merge_stream:
  "length ps = length ss \<Longrightarrow> i < length ss \<Longrightarrow>
   map snd (filter (\<lambda>x. fst x = i) (heapq_merge key n ss ps))
     = map (ss ! i) [ps ! i ..< ps ! i + length (filter (\<lambda>x. fst x = i) (heapq_merge key n ss ps))]"
proof (induction n arbitrary: ps)
  case 0
  then show ?case by simp
next
  case (Suc n)
  from Suc.prems(2) have False: "ss \<noteq> []" by auto
  define l where "l = least_index (pending key ss ps)"
  define ps' where "ps' = ps[l := Suc (ps ! l)]"
  from Suc.prems(1) have len: "length ps' = length ss" by (simp add: ps'_def)
  have step: "heapq_merge key (Suc n) ss ps = (l, (ss ! l) (ps ! l)) # heapq_merge key n ss ps'"
    using False by (simp add: Let_def l_def ps'_def)
  note IH = Suc.IH [OF len Suc.prems(2)]
  show ?case
  proof (cases "l = i")
    case True
    with Suc.prems have p: "ps' ! i = Suc (ps ! i)" by (simp add: ps'_def)
    define k where "k = length (filter (\<lambda>x. fst x = i) (heapq_merge key n ss ps'))"
    from IH p have tl: "map snd (filter (\<lambda>x. fst x = i) (heapq_merge key n ss ps'))
        = map (ss ! i) [Suc (ps ! i) ..< Suc (ps ! i) + k]"
      by (simp add: k_def)
    have "[ps ! i ..< ps ! i + Suc k] = ps ! i # [Suc (ps ! i) ..< Suc (ps ! i) + k]"
      by (simp add: upt_conv_Cons)
    with tl True show ?thesis unfolding step
      by (simp add: k_def [symmetric])
  next
    case False
    then have p: "ps' ! i = ps ! i" by (simp add: ps'_def)
    show ?thesis unfolding step using False IH p by simp
  qed
qed

lemma merge_length:
  "ss \<noteq> [] \<Longrightarrow> length (heapq_merge key n ss ps) = n"
  by (induction n arbitrary: ps) (simp_all add: Let_def)

lemma event_time_mono:
  assumes "0 < B" and "0 \<le> m" and "m < M" and "\<forall>n. 0 \<le> us n \<and> us n < 1"
  shows "p \<le> q \<Longrightarrow> event_time T0 B m M N us p \<le> event_time T0 B m M N us q"
proof (induction q)
  case 0
  then show ?case by simp
next
  case (Suc q)
  from assms(4) have u: "0 \<le> us (Suc q)" by simp
  from assms(1,2,3) u have "0 \<le> us (Suc q) * (M - m)" by simp
  with assms(1,2) have pos: "0 \<le> random_interval B m M (us (Suc q))"
    by (simp add: random_interval_def)
  show ?case
  proof (cases "p = Suc q")
    case True
    then show ?thesis by simp
  next
    case False
    with Suc.prems have "p \<le> q" by simp
    from Suc.IH [OF this] pos show ?thesis by simp
  qed
qed

lemma scheduler_streams_mono:
  assumes "\<forall>n. 0 \<le> us1 n \<and> us1 n < 1" and "\<forall>n. 0 \<le> us2 n \<and> us2 n < 1"
  shows "\<forall>s\<in>set [event_stream REFRESH last_login SESSION_REFRESH_INTERVAL
          SESSION_REFRESH_INTERVAL_MIN_DRIFT SESSION_REFRESH_INTERVAL_MAX_DRIFT now1 us1,
        event_stream UPDATE last_update UPDATE_INTERVAL
          UPDATE_INTERVAL_MIN_DRIFT UPDATE_INTERVAL_MAX_DRIFT now2 us2].
       \<forall>p q. p \<le> q \<longrightarrow> ev_when (s p) \<le> ev_when (s q)"
proof -
  have r: "0 < SESSION_REFRESH_INTERVAL" "0 \<le> SESSION_REFRESH_INTERVAL_MIN_DRIFT"
    "SESSION_REFRESH_INTERVAL_MIN_DRIFT < SESSION_REFRESH_INTERVAL_MAX_DRIFT"
    by (simp_all add: SESSION_REFRESH_INTERVAL_def SESSION_REFRESH_INTERVAL_MIN_DRIFT_def
          SESSION_REFRESH_INTERVAL_MAX_DRIFT_def)
  have u: "0 < UPDATE_INTERVAL" "0 \<le> UPDATE_INTERVAL_MIN_DRIFT"
    "UPDATE_INTERVAL_MIN_DRIFT < UPDATE_INTERVAL_MAX_DRIFT"
    by (simp_all add: UPDATE_INTERVAL_def UPDATE_INTERVAL_MIN_DRIFT_def UPDATE_INTERVAL_MAX_DRIFT_def)
  from event_time_mono [OF r assms(1)] event_time_mono [OF u assms(2)]
  show ?thesis by (simp add: event_stream_def)
qed

lemma merge_sorted_keys:
  assumes "length ps = length ss"
    and "\<forall>s\<in>set ss. \<forall>p q. p \<le> q \<longrightarrow> key (s p) \<le> key (s q)"
  shows "sorted (map (\<lambda>x. key (snd x)) (heapq_merge key n ss ps))"
    and "sorted_wrt (\<lambda>x y. key (snd x) = key (snd y) \<longrightarrow> fst x \<le> fst y) (heapq_merge key n ss ps)"
proof -
  note s = merge_sorted [OF assms(2) assms(1), of n]
  have "sorted_wrt (\<lambda>x y. key (snd x) \<le> key (snd y)) (heapq_merge key n ss ps)"
    by (rule sorted_wrt_mono_rel [OF _ s]) auto
  then show "sorted (map (\<lambda>x. key (snd x)) (heapq_merge key n ss ps))"
    by (simp add: sorted_map)
  show "sorted_wrt (\<lambda>x y. key (snd x) = key (snd y) \<longrightarrow> fst x \<le> fst y) (heapq_merge key n ss ps)"
    by (rule sorted_wrt_mono_rel [OF _ s]) auto
qed

lemma iter_events_sorted:
  assumes "\<forall>n. 0 \<le> us1 n \<and> us1 n < 1" and "\<forall>n. 0 \<le> us2 n \<and> us2 n < 1"
  shows "sorted (map ev_when (iter_events last_login last_update now1 now2 us1 us2 n))"
    and "sorted_wrt (\<lambda>a b. ev_when a = ev_when b \<longrightarrow> ev_what a = UPDATE \<longrightarrow> ev_what b = UPDATE)
           (iter_events last_login last_update now1 now2 us1 us2 n)"
    and "length (iter_events last_login last_update now1 now2 us1 us2 n) = n"
proof -
  let ?ss = "[event_stream REFRESH last_login SESSION_REFRESH_INTERVAL
          SESSION_REFRESH_INTERVAL_MIN_DRIFT SESSION_REFRESH_INTERVAL_MAX_DRIFT now1 us1,
        event_stream UPDATE last_update UPDATE_INTERVAL
          UPDATE_INTERVAL_MIN_DRIFT UPDATE_INTERVAL_MAX_DRIFT now2 us2]"
  let ?xs = "heapq_merge ev_when n ?ss [0, 0]"
  have len: "length [0::nat, 0] = length ?ss" by simp
  note mono = scheduler_streams_mono [OF assms, of last_login now1 last_update now2]
  from merge_sorted_keys(1) [OF len mono, of n]
  show "sorted (map ev_when (iter_events last_login last_update now1 now2 us1 us2 n))"
    by (simp add: iter_events_def comp_def)
  have kind: "ev_what b = (if j = 0 then REFRESH else UPDATE)" if "(j, b) \<in> set ?xs" for j b
  proof -
    from merge_source [OF len that] obtain q where "j < 2" "b = (?ss ! j) q" by auto
    then show ?thesis by (cases j) (auto simp: event_stream_def)
  qed
  have "sorted_wrt (\<lambda>x y. ev_when (snd x) = ev_when (snd y) \<longrightarrow>
           ev_what (snd x) = UPDATE \<longrightarrow> ev_what (snd y) = UPDATE) ?xs"
  proof (rule sorted_wrt_mono_rel [OF _ merge_sorted_keys(2) [OF len mono, of n]])
    fix x y assume x: "x \<in> set ?xs" and y: "y \<in> set ?xs"
      and st: "ev_when (snd x) = ev_when (snd y) \<longrightarrow> fst x \<le> fst y"
    from kind [of "fst x" "snd x"] x have kx: "ev_what (snd x) = (if fst x = 0 then REFRESH else UPDATE)"
      by simp
    from kind [of "fst y" "snd y"] y have ky: "ev_what (snd y) = (if fst y = 0 then REFRESH else UPDATE)"
      by simp
    from st kx ky show "ev_when (snd x) = ev_when (snd y) \<longrightarrow>
           ev_what (snd x) = UPDATE \<longrightarrow> ev_what (snd y) = UPDATE"
      by (auto split: if_splits)
  qed
  then show "sorted_wrt (\<lambda>a b. ev_when a = ev_when b \<longrightarrow> ev_what a = UPDATE \<longrightarrow> ev_what b = UPDATE)
           (iter_events last_login last_update now1 now2 us1 us2 n)"
    by (simp add: iter_events_def sorted_wrt_map)
  show "length (iter_events last_login last_update now1 now2 us1 us2 n) = n"
    by (simp add: iter_events_def merge_length)
qed

text \<open>
  Claim C3: the merge of any number of streams, each non-decreasing in its key, started at
  any positions, yields a list that is sorted by key, in which of two entries with equal
  keys the earlier one comes from the stream supplied earlier (or from the same stream), and
  whose entries from stream \<open>i\<close> are the consecutive values of that stream from its start
  position on; with at least one stream it yields as many entries as are asked for. For
  the Scheduler, with draws in \<open>[0, 1)\<close>: every prefix of its output is sorted by \<open>when\<close>, and
  of two entries with equal \<open>when\<close> a REFRESH comes before an UPDATE.
\<close>

theorem heapq_merge_sorted_stable:
  "(length ps = length ss \<and> (\<forall>s\<in>set ss. \<forall>p q. p \<le> q \<longrightarrow> key (s p) \<le> key (s q)) \<longrightarrow>
      sorted (map (\<lambda>x. key (snd x)) (heapq_merge key n ss ps))
    \<and> sorted_wrt (\<lambda>x y. key (snd x) = key (snd y) \<longrightarrow> fst x \<le> fst y) (heapq_merge key n ss ps)
    \<and> (\<forall>i<length ss.
          map snd (filter (\<lambda>x. fst x = i) (heapq_merge key n ss ps))
            = map (ss ! i)
                [ps ! i ..< ps ! i + length (filter (\<lambda>x. fst x = i) (heapq_merge key n ss ps))])
    \<and> (ss \<noteq> [] \<longrightarrow> length (heapq_merge key n ss ps) = n))
   \<and> ((\<forall>n. 0 \<le> us1 n \<and> us1 n < 1) \<and> (\<forall>n. 0 \<le> us2 n \<and> us2 n < 1) \<longrightarrow>
      sorted (map ev_when (iter_events last_login last_update now1 now2 us1 us2 n))
    \<and> sorted_wrt (\<lambda>a b. ev_when a = ev_when b \<longrightarrow> ev_what a = UPDATE \<longrightarrow> ev_what b = UPDATE)
        (iter_events last_login last_update now1 now2 us1 us2 n)
    \<and> length (iter_events last_login last_update now1 now2 us1 us2 n) = n)"
proof (intro conjI impI allI)
  assume a: "length ps = length ss \<and> (\<forall>s\<in>set ss. \<forall>p q. p \<le> q \<longrightarrow> key (s p) \<le> key (s q))"
  then have len: "length ps = length ss"
    and mono: "\<forall>s\<in>set ss. \<forall>p q. p \<le> q \<longrightarrow> key (s p) \<le> key (s q)"
    by blast+
  show "sorted (map (\<lambda>x. key (snd x)) (heapq_merge key n ss ps))"
    by (rule merge_sorted_keys(1) [OF len mono])
  show "sorted_wrt (\<lambda>x y. key (snd x) = key (snd y) \<longrightarrow> fst x \<le> fst y) (heapq_merge key n ss ps)"
    by (rule merge_sorted_keys(2) [OF len mono])
  show "map snd (filter (\<lambda>x. fst x = i) (heapq_merge key n ss ps))
            = map (ss ! i)
                [ps ! i ..< ps ! i + length (filter (\<lambda>x. fst x = i) (heapq_merge key n ss ps))]"
    if "i < length ss" for i
    by (rule merge_stream [OF len that])
  show "length (heapq_merge key n ss ps) = n" if "ss \<noteq> []"
    by (rule merge_length [OF that])
next
  assume a: "(\<forall>n. 0 \<le> us1 n \<and> us1 n < 1) \<and> (\<forall>n. 0 \<le> us2 n \<and> us2 n < 1)"
  then have u1: "\<forall>n. 0 \<le> us1 n \<and> us1 n < 1" and u2: "\<forall>n. 0 \<le> us2 n \<and> us2 n < 1"
    by blast+
  show "sorted (map ev_when (iter_events last_login last_update now1 now2 us1 us2 n))"
    by (rule iter_events_sorted(1) [OF u1 u2])
  show "sorted_wrt (\<lambda>a b. ev_when a = ev_when b \<longrightarrow> ev_what a = UPDATE \<longrightarrow> ev_what b = UPDATE)
        (iter_events last_login last_update now1 now2 us1 us2 n)"
    by (rule iter_events_sorted(2) [OF u1 u2])
  show "length (iter_events last_login last_update now1 now2 us1 us2 n) = n"
    by (rule iter_events_sorted(3) [OF u1 u2])
qed

lemma sample_merge:
  "heapq_merge ev_when 7
     [\<lambda>n. \<lparr>ev_when = of_nat (2 * n), ev_what = REFRESH\<rparr>,
      \<lambda>n. \<lparr>ev_when = of_nat (3 * n), ev_what = UPDATE\<rparr>] [0, 0]
   = [(0, \<lparr>ev_when = 0, ev_what = REFRESH\<rparr>), (1, \<lparr>ev_when = 0, ev_what = UPDATE\<rparr>),
      (0, \<lparr>ev_when = 2, ev_what = REFRESH\<rparr>), (1, \<lparr>ev_when = 3, ev_what = UPDATE\<rparr>),
      (0, \<lparr>ev_when = 4, ev_what = REFRESH\<rparr>), (0, \<lparr>ev_when = 6, ev_what = REFRESH\<rparr>),
      (1, \<lparr>ev_when = 6, ev_what = UPDATE\<rparr>)]"
  by code_simp

lemma sample_iter_events:
  "iter_events 0 0 100 100 (\<lambda>n. 1 / 2) (\<lambda>n. 1 / 2) 3
   = [\<lparr>ev_when = 3635, ev_what = REFRESH\<rparr>, \<lparr>ev_when = 7270, ev_what = REFRESH\<rparr>,
      \<lparr>ev_when = 10905, ev_what = REFRESH\<rparr>]"
  by code_simp

theorem heapq_merge_sorted_stable_witness:
  "heapq_merge ev_when 7
     [\<lambda>n. \<lparr>ev_when = of_nat (2 * n), ev_what = REFRESH\<rparr>,
      \<lambda>n. \<lparr>ev_when = of_nat (3 * n), ev_what = UPDATE\<rparr>] [0, 0]
   = [(0, \<lparr>ev_when = 0, ev_what = REFRESH\<rparr>), (1, \<lparr>ev_when = 0, ev_what = UPDATE\<rparr>),
      (0, \<lparr>ev_when = 2, ev_what = REFRESH\<rparr>), (1, \<lparr>ev_when = 3, ev_what = UPDATE\<rparr>),
      (0, \<lparr>ev_when = 4, ev_what = REFRESH\<rparr>), (0, \<lparr>ev_when = 6, ev_what = REFRESH\<rparr>),
      (1, \<lparr>ev_when = 6, ev_what = UPDATE\<rparr>)]
   \<and> sorted (map (\<lambda>x. ev_when (snd x))
        (heapq_merge ev_when 7
          [\<lambda>n. \<lparr>ev_when = of_nat (2 * n), ev_what = REFRESH\<rparr>,
           \<lambda>n. \<lparr>ev_when = of_nat (3 * n), ev_what = UPDATE\<rparr>] [0, 0]))
   \<and> iter_events 0 0 100 100 (\<lambda>n. 1 / 2) (\<lambda>n. 1 / 2) 3
       = [\<lparr>ev_when = 3635, ev_what = REFRESH\<rparr>, \<lparr>ev_when = 7270, ev_what = REFRESH\<rparr>,
          \<lparr>ev_when = 10905, ev_what = REFRESH\<rparr>]
   \<and> sorted (map ev_when (iter_events 0 0 100 100 (\<lambda>n. 1 / 2) (\<lambda>n. 1 / 2) 3))"
proof -
  let ?ss = "[\<lambda>n. \<lparr>ev_when = of_nat (2 * n), ev_what = REFRESH\<rparr>,
      \<lambda>n. \<lparr>ev_when = of_nat (3 * n) :: rat, ev_what = UPDATE\<rparr>]"
  have hyp: "length [0::nat, 0] = length ?ss
       \<and> (\<forall>s\<in>set ?ss. \<forall>p q. p \<le> q \<longrightarrow> ev_when (s p) \<le> ev_when (s q))"
    by simp
  have draws: "(\<forall>n::nat. (0::rat) \<le> 1 / 2 \<and> (1::rat) / 2 < 1)
       \<and> (\<forall>n::nat. (0::rat) \<le> 1 / 2 \<and> (1::rat) / 2 < 1)"
    by simp
  note t = heapq_merge_sorted_stable [where ps = "[0, 0]" and ss = ?ss and key = ev_when and n = 7]
  from t hyp have a: "sorted (map (\<lambda>x. ev_when (snd x)) (heapq_merge ev_when 7 ?ss [0, 0]))"
    by blast
  note u = heapq_merge_sorted_stable [where ?us1.0 = "\<lambda>n. 1 / 2" and ?us2.0 = "\<lambda>n. 1 / 2"
      and last_login = 0 and last_update = 0 and ?now1.0 = 100 and ?now2.0 = 100 and n = 3]
  from u draws have b: "sorted (map ev_when (iter_events 0 0 100 100 (\<lambda>n. 1 / 2) (\<lambda>n. 1 / 2) 3))"
    by blast
  from a b sample_merge sample_iter_events show ?thesis by simp
qed

end
